theory Spec2Isabelle
  imports Complex_Main "HOL-Library.AList" "HOL-Library.Log_Nat" "HOL-Library.Multiset"
begin

section \<open>Values, markers and errors\<close>

text \<open>
  The reserved marker symbols that \<^verbatim>\<open>__init__.py\<close> imports from \<^verbatim>\<open>ujsondiff.symbols\<close>.
  A Python \<^verbatim>\<open>Symbol\<close> is compared by identity, which is equality of the constructor here.
\<close>

datatype symbol = Add | Delete | Discard | Insert | Replace | Missing

text \<open>
  The Python values that are diffed and patched, and the deltas (which are values holding
  markers).
  \<^item> \<open>IntV\<close> is Python's unbounded \<^verbatim>\<open>int\<close>; \<^verbatim>\<open>True\<close> and \<^verbatim>\<open>False\<close> are equal to, hash like and
    index like \<^verbatim>\<open>1\<close> and \<^verbatim>\<open>0\<close>, and are \<open>IntV 1\<close> and \<open>IntV 0\<close>.
  \<^item> \<open>FloatV q\<close> is a finite Python \<^verbatim>\<open>float\<close> of value \<open>q\<close> that is not a whole number (a
    float with a whole value is equal to the \<^verbatim>\<open>int\<close> and is written \<open>IntV\<close>; NaN and the
    infinities are outside the model).
  \<^item> \<open>Str\<close> is \<^verbatim>\<open>str\<close>, one \<open>char\<close> for each character; the characters are those up
    to U+00FF, a string with a character above is outside the model.
  \<^item> \<open>SetV xs\<close> is a \<^verbatim>\<open>set\<close> with the elements \<open>xs\<close>, listed in the order in which the
    set is iterated over; \<open>Dict kvs\<close> is a \<^verbatim>\<open>dict\<close> with its items in insertion order. Both
    are meant with distinct elements and keys. Python decides the order of a set by the
    hashes of its elements: where a function of the program builds a new set, the order
    of the list it returns here is one of the possible orders.
  With these conventions Python's \<^verbatim>\<open>==\<close> on hashable values is the equality of \<open>val\<close>.
\<close>

datatype val =
    Null
  | IntV int
  | FloatV rat
  | Str string
  | Sym symbol
  | List "val list"
  | Tuple "val list"
  | SetV "val list"
  | Dict "(val \<times> val) list"

datatype error = KeyError | IndexError | TypeError | ValueError | AttributeError | OverflowError

fun is_Dict :: "val \<Rightarrow> bool" where
  "is_Dict (Dict kvs) = True"
| "is_Dict v = False"

fun is_Sym :: "val \<Rightarrow> bool" where
  "is_Sym (Sym s) = True"
| "is_Sym v = False"

text \<open>What Python can hash: the scalars, the markers, and tuples of hashable values.\<close>

fun hashable :: "val \<Rightarrow> bool" where
  "hashable (List xs) = False"
| "hashable (SetV xs) = False"
| "hashable (Dict kvs) = False"
| "hashable (Tuple xs) = list_all hashable xs"
| "hashable v = True"

section \<open>Python floats\<close>

text \<open>
  A similarity score is a Python \<^verbatim>\<open>float\<close> (IEEE 754 binary64). A finite float is a
  rational number, and each float operation returns the exact result rounded to the
  nearest float, ties to the even significand. \<open>fl\<close> is that rounding (53 significant
  bits, gradual underflow below \<open>2\<^sup>-\<^sup>1\<^sup>0\<^sup>2\<^sup>2\<close>; overflow is not modelled: the scores and
  their sums are bounded by the number of elements of the operands).
\<close>

definition ilog2 :: "rat \<Rightarrow> int" where
  "ilog2 x = (if 1 \<le> x then int (floorlog 2 (nat \<lfloor>x\<rfloor>)) - 1
              else (let k = floorlog 2 (nat \<lfloor>1 / x\<rfloor>) - 1
                    in if x * 2 ^ k = 1 then - int k else - int k - 1))"

definition pow2 :: "int \<Rightarrow> rat" where
  "pow2 e = (if 0 \<le> e then 2 ^ nat e else 1 / 2 ^ nat (- e))"

definition round_even :: "rat \<Rightarrow> int" where
  "round_even m = (let f = \<lfloor>m\<rfloor>; d = m - of_int f
      in if d < 1 / 2 then f else if 1 / 2 < d then f + 1 else if even f then f else f + 1)"

definition fl :: "rat \<Rightarrow> rat" where
  "fl x = (if x = 0 then 0
           else (let a = \<bar>x\<bar>; u = pow2 (max (ilog2 a) (- 1022) - 52)
                 in sgn x * of_int (round_even (a / u)) * u))"

definition fadd :: "rat \<Rightarrow> rat \<Rightarrow> rat" where
  "fadd x y = fl (x + y)"

definition fmul :: "rat \<Rightarrow> rat \<Rightarrow> rat" where
  "fmul x y = fl (x * y)"

definition fdiv :: "rat \<Rightarrow> rat \<Rightarrow> rat" where
  "fdiv x y = fl (x / y)"

text \<open>The conversion of an \<^verbatim>\<open>int\<close> count to \<^verbatim>\<open>float\<close>, explicit or in mixed arithmetic.\<close>

definition float_of_nat :: "nat \<Rightarrow> rat" where
  "float_of_nat n = fl (of_nat n)"

section \<open>The compact syntax: emitting deltas\<close>

text \<open>\<^verbatim>\<open>{replace: b} if isinstance(b, dict) else b\<close>\<close>

definition replace_or_value :: "val \<Rightarrow> val" where
  "replace_or_value b = (if is_Dict b then Dict [(Sym Replace, b)] else b)"

text \<open>
  \<^verbatim>\<open>CompactJsonDiffSyntax.emit_set_diff(a, b, s, added, removed)\<close>; \<open>a\<close> is the list of
  the elements of the first set, of which only the length is read.
\<close>

definition emit_set_diff :: "val list \<Rightarrow> val \<Rightarrow> rat \<Rightarrow> val list \<Rightarrow> val list \<Rightarrow> val" where
  "emit_set_diff a b s added removed =
     (if s = 0 \<or> length removed = length a then replace_or_value b
      else Dict ((if removed \<noteq> [] then [(Sym Discard, SetV removed)] else [])
               @ (if added \<noteq> [] then [(Sym Add, SetV added)] else [])))"

text \<open>
  \<^verbatim>\<open>CompactJsonDiffSyntax.emit_list_diff(a, b, s, inserted, changed, deleted)\<close>:
  \<open>changed\<close> is the dict from positions to nested deltas, \<open>inserted\<close> and \<open>deleted\<close> are
  lists of (position, value) pairs.
\<close>

definition emit_list_diff ::
  "val \<Rightarrow> val \<Rightarrow> rat \<Rightarrow> (nat \<times> val) list \<Rightarrow> (val \<times> val) list \<Rightarrow> (nat \<times> val) list \<Rightarrow> val" where
  "emit_list_diff a b s inserted changed deleted =
     (if s = 0 then replace_or_value b
      else if s = 1 then Dict []
      else
        (let d = changed;
             d = (if inserted \<noteq> []
                  then AList.update (Sym Insert)
                         (List (map (\<lambda>(pos, value). Tuple [IntV (int pos), value]) inserted)) d
                  else d);
             d = (if deleted \<noteq> []
                  then AList.update (Sym Delete)
                         (List (map (\<lambda>(pos, value). IntV (int pos)) deleted)) d
                  else d)
         in Dict d))"

text \<open>
  \<^verbatim>\<open>CompactJsonDiffSyntax.emit_dict_diff(a, b, s, added, changed, removed)\<close>;
  \<^verbatim>\<open>changed.update(added)\<close> stores the items of \<open>added\<close> one after the other.
\<close>

definition dict_update_all :: "(val \<times> val) list \<Rightarrow> (val \<times> val) list \<Rightarrow> (val \<times> val) list" where
  "dict_update_all d new = fold (\<lambda>(k, v) d. AList.update k v d) new d"

definition emit_dict_diff ::
  "val \<Rightarrow> val \<Rightarrow> rat \<Rightarrow> (val \<times> val) list \<Rightarrow> (val \<times> val) list \<Rightarrow> (val \<times> val) list \<Rightarrow> val" where
  "emit_dict_diff a b s added changed removed =
     (if s = 0 then replace_or_value b
      else if s = 1 then Dict []
      else
        (let changed = dict_update_all changed added;
             changed = (if removed \<noteq> []
                        then AList.update (Sym Delete) (List (map fst removed)) changed
                        else changed)
         in Dict changed))"

text \<open>\<^verbatim>\<open>CompactJsonDiffSyntax.emit_value_diff(a, b, s)\<close>\<close>

definition emit_value_diff :: "val \<Rightarrow> val \<Rightarrow> rat \<Rightarrow> val" where
  "emit_value_diff a b s = (if s = 1 then Dict [] else replace_or_value b)"

section \<open>The differ\<close>

text \<open>
  The three container differs call \<^verbatim>\<open>self._obj_diff\<close> on elements of their operands.
  They take it as the parameter \<open>f\<close>; \<open>obj_diff\<close> below ties the knot.
\<close>

subsection \<open>Sequences\<close>

text \<open>
  The table \<^verbatim>\<open>C\<close> of \<^verbatim>\<open>_list_diff\<close>, row by row. \<open>lcs_row f x Y prev left\<close> is the rest of
  row \<open>i\<close> from column \<open>j\<close> on, where \<open>x = X[i-1]\<close>, \<open>Y\<close> is \<open>Y[j-1:]\<close>, \<open>prev\<close> is row
  \<open>i-1\<close> from column \<open>j-1\<close> on and \<open>left = C[i][j-1]\<close>:
  \<^verbatim>\<open>C[i][j] = max(C[i][j-1], C[i-1][j], C[i-1][j-1] + s)\<close>.
\<close>

fun lcs_row :: "(val \<Rightarrow> val \<Rightarrow> val \<times> rat) \<Rightarrow> val \<Rightarrow> val list \<Rightarrow> rat list \<Rightarrow> rat \<Rightarrow> rat list" where
  "lcs_row f x [] prev left = []"
| "lcs_row f x (y # ys) prev left =
     (let c = max left (max (prev ! 1) (fadd (prev ! 0) (snd (f x y))))
      in c # lcs_row f x ys (tl prev) c)"

fun lcs_rows :: "(val \<Rightarrow> val \<Rightarrow> val \<times> rat) \<Rightarrow> val list \<Rightarrow> val list \<Rightarrow> rat list \<Rightarrow> rat list list" where
  "lcs_rows f [] Y prev = []"
| "lcs_rows f (x # xs) Y prev =
     (let row = 0 # lcs_row f x Y prev 0 in row # lcs_rows f xs Y row)"

definition lcs_table :: "(val \<Rightarrow> val \<Rightarrow> val \<times> rat) \<Rightarrow> val list \<Rightarrow> val list \<Rightarrow> rat list list" where
  "lcs_table f X Y =
     (let row0 = replicate (length Y + 1) 0 in row0 # lcs_rows f X Y row0)"

text \<open>
  \<^verbatim>\<open>_list_diff_0(C, X, Y)\<close>: the loop that walks back from \<open>(len(X), len(Y))\<close>. An entry of
  the script is \<^verbatim>\<open>(sign, value, pos, s)\<close>. \<open>r\<close> is the script built so far; the result is
  \<^verbatim>\<open>reversed(r)\<close>.
\<close>

type_synonym edit = "int \<times> val \<times> nat \<times> rat"

function list_diff_0 ::
  "(val \<Rightarrow> val \<Rightarrow> val \<times> rat) \<Rightarrow> rat list list \<Rightarrow> val list \<Rightarrow> val list \<Rightarrow> nat \<Rightarrow> nat \<Rightarrow> edit list
     \<Rightarrow> edit list" where
  "list_diff_0 f C X Y i j r =
     (if 0 < i \<and> 0 < j \<and> 0 < snd (f (X ! (i - 1)) (Y ! (j - 1)))
         \<and> C ! i ! j = fadd (C ! (i - 1) ! (j - 1)) (snd (f (X ! (i - 1)) (Y ! (j - 1))))
      then list_diff_0 f C X Y (i - 1) (j - 1)
             (r @ [(0, fst (f (X ! (i - 1)) (Y ! (j - 1))), j - 1, snd (f (X ! (i - 1)) (Y ! (j - 1))))])
      else if 0 < j \<and> (i = 0 \<or> C ! (i - 1) ! j \<le> C ! i ! (j - 1))
      then list_diff_0 f C X Y i (j - 1) (r @ [(1, Y ! (j - 1), j - 1, 0)])
      else if 0 < i \<and> (j = 0 \<or> C ! i ! (j - 1) < C ! (i - 1) ! j)
      then list_diff_0 f C X Y (i - 1) j (r @ [(- 1, X ! (i - 1), i - 1, 0)])
      else rev r)"
  by pat_completeness auto
termination
  by (relation "measure (\<lambda>(f, C, X, Y, i, j, r). i + j)") auto

text \<open>The loop of \<^verbatim>\<open>_list_diff\<close> over the script.\<close>

record list_acc =
  inserted :: "(nat \<times> val) list"
  deleted :: "(nat \<times> val) list"
  changed :: "(val \<times> val) list"
  tot_s :: rat

definition list_step :: "edit \<Rightarrow> list_acc \<Rightarrow> list_acc" where
  "list_step e acc =
     (case e of (sign, value, pos, s) \<Rightarrow>
        (let acc = (if sign = 1 then acc\<lparr>inserted := inserted acc @ [(pos, value)]\<rparr>
                    else if sign = - 1 then acc\<lparr>deleted := (pos, value) # deleted acc\<rparr>
                    else if sign = 0 \<and> s < 1
                    then acc\<lparr>changed := AList.update (IntV (int pos)) value (changed acc)\<rparr>
                    else acc)
         in acc\<lparr>tot_s := fadd (tot_s acc) s\<rparr>))"

definition list_collect :: "edit list \<Rightarrow> list_acc" where
  "list_collect script =
     fold list_step script \<lparr>inserted = [], deleted = [], changed = [], tot_s = 0\<rparr>"

text \<open>
  \<^verbatim>\<open>_list_diff(X, Y)\<close>. \<open>mk\<close> is \<open>List\<close> or \<open>Tuple\<close>, the type of both operands, so that
  \<open>mk X\<close> and \<open>mk Y\<close> are the operands themselves.
\<close>

definition list_diff_script :: "(val \<Rightarrow> val \<Rightarrow> val \<times> rat) \<Rightarrow> val list \<Rightarrow> val list \<Rightarrow> edit list" where
  "list_diff_script f X Y = list_diff_0 f (lcs_table f X Y) X Y (length X) (length Y) []"

definition list_similarity :: "val list \<Rightarrow> list_acc \<Rightarrow> rat" where
  "list_similarity X acc =
     (let tot_n = length X + length (inserted acc)
      in if tot_n = 0 then 1 else fdiv (tot_s acc) (float_of_nat tot_n))"

definition list_diff ::
  "(val \<Rightarrow> val \<Rightarrow> val \<times> rat) \<Rightarrow> (val list \<Rightarrow> val) \<Rightarrow> val list \<Rightarrow> val list \<Rightarrow> val \<times> rat" where
  "list_diff f mk X Y =
     (let acc = list_collect (list_diff_script f X Y);
          s = list_similarity X acc
      in (emit_list_diff (mk X) (mk Y) s (inserted acc) (changed acc) (deleted acc), s))"

subsection \<open>Sets\<close>

text \<open>
  \<^verbatim>\<open>a.difference(b)\<close> is a new set. Python iterates over it in the order of its hash
  table, which the hashes of the elements decide and the order of \<open>a\<close> does not. The
  body of \<^verbatim>\<open>_set_diff\<close> below the two differences, \<open>set_diff_ordered\<close>, therefore takes
  \<open>removed\<close> and \<open>added\<close> as lists in their iteration order, whatever it is. Of \<open>a\<close>
  and \<open>b\<close> themselves only the length and the elements are read.
\<close>

text \<open>
  The ranking: the triples \<^verbatim>\<open>(s, x, y)\<close> for \<^verbatim>\<open>x in removed for y in added\<close>, sorted by
  \<^verbatim>\<open>s\<close>, largest first; Python's sort is stable, also with \<^verbatim>\<open>reverse=True\<close>, and so is
  \<open>sort_key\<close>.
\<close>

definition set_ranking ::
  "(val \<Rightarrow> val \<Rightarrow> val \<times> rat) \<Rightarrow> val list \<Rightarrow> val list \<Rightarrow> (rat \<times> val \<times> val) list" where
  "set_ranking f removed added =
     sort_key (\<lambda>t. - fst t)
       (concat (map (\<lambda>x. map (\<lambda>y. (snd (f x y), x, y)) added) removed))"

text \<open>
  The greedy loop over the ranking, with its state \<^verbatim>\<open>(r2, a2, s_common, n_common)\<close>; the
  \<^verbatim>\<open>break\<close> leaves the loop when one of the pools is empty.
\<close>

fun set_greedy ::
  "(rat \<times> val \<times> val) list \<Rightarrow> val list \<Rightarrow> val list \<Rightarrow> rat \<Rightarrow> nat \<Rightarrow> val list \<times> val list \<times> rat \<times> nat" where
  "set_greedy [] r2 a2 s_common n_common = (r2, a2, s_common, n_common)"
| "set_greedy ((s, x, y) # ranking) r2 a2 s_common n_common =
     (let (r2, a2, s_common, n_common) =
            (if x \<in> set r2 \<and> y \<in> set a2
             then (removeAll x r2, removeAll y a2, fadd s_common s, n_common + 1)
             else (r2, a2, s_common, n_common))
      in if r2 = [] \<or> a2 = [] then (r2, a2, s_common, n_common)
         else set_greedy ranking r2 a2 s_common n_common)"

definition set_diff_ordered ::
  "(val \<Rightarrow> val \<Rightarrow> val \<times> rat) \<Rightarrow> val list \<Rightarrow> val list \<Rightarrow> val list \<Rightarrow> val list \<Rightarrow> val \<times> rat" where
  "set_diff_ordered f a b removed added =
     (if removed = [] \<and> added = [] then (Dict [], 1)
      else
        (let ranking = set_ranking f removed added;
             n_common = length a - length removed;
             (r2, a2, s_common, n_common) =
                set_greedy ranking removed added (float_of_nat n_common) n_common;
             n_tot = length a + length added;
             s = (if n_tot \<noteq> 0 then fdiv s_common (float_of_nat n_tot) else 1)
         in (emit_set_diff a (SetV b) s added removed, s)))"

text \<open>
  \<^verbatim>\<open>_set_diff(a, b)\<close> with the two differences listed in the order of their operand,
  one of the orders Python may take. The order matters where two pairs have the same
  score: the ranking, the matching and the similarity follow it.
\<close>

definition set_difference :: "val list \<Rightarrow> val list \<Rightarrow> val list" where
  "set_difference a b = filter (\<lambda>x. x \<notin> set b) a"

definition set_diff :: "(val \<Rightarrow> val \<Rightarrow> val \<times> rat) \<Rightarrow> val list \<Rightarrow> val list \<Rightarrow> val \<times> rat" where
  "set_diff f a b = set_diff_ordered f a b (set_difference a b) (set_difference b a)"

subsection \<open>Maps\<close>

text \<open>\<^verbatim>\<open>b.get(k, missing)\<close>\<close>

definition dict_get_missing :: "(val \<times> val) list \<Rightarrow> val \<Rightarrow> val" where
  "dict_get_missing b k = (case map_of b k of None \<Rightarrow> Sym Missing | Some w \<Rightarrow> w)"

record dict_acc =
  removed :: "(val \<times> val) list"
  nremoved :: nat
  nmatched :: nat
  smatched :: rat
  dchanged :: "(val \<times> val) list"

text \<open>The body of the first loop of \<^verbatim>\<open>_dict_diff\<close>, for the item \<open>(k, v)\<close> of \<open>a\<close>.\<close>

definition dict_step ::
  "(val \<Rightarrow> val \<Rightarrow> val \<times> rat) \<Rightarrow> (val \<times> val) list \<Rightarrow> val \<times> val \<Rightarrow> dict_acc \<Rightarrow> dict_acc" where
  "dict_step f b kv acc =
     (case kv of (k, v) \<Rightarrow>
       (let w = dict_get_missing b k
        in if is_Sym w
           then (if w = Sym Missing
                 then acc\<lparr>nremoved := nremoved acc + 1,
                          removed := AList.update k v (removed acc)\<rparr>
                 else acc)
           else
             (let (d, s) = f v w;
                  acc = acc\<lparr>nmatched := nmatched acc + 1\<rparr>;
                  acc = (if s < 1 then acc\<lparr>dchanged := AList.update k d (dchanged acc)\<rparr> else acc)
              in acc\<lparr>smatched := fadd (smatched acc) (fadd (1 / 2) (fmul (1 / 2) s))\<rparr>)))"

text \<open>The second loop: the items of \<open>b\<close> whose key is not in \<open>a\<close>.\<close>

definition dict_added :: "(val \<times> val) list \<Rightarrow> (val \<times> val) list \<Rightarrow> (val \<times> val) list" where
  "dict_added a b = filter (\<lambda>(k, v). map_of a k = None) b"

definition dict_diff ::
  "(val \<Rightarrow> val \<Rightarrow> val \<times> rat) \<Rightarrow> (val \<times> val) list \<Rightarrow> (val \<times> val) list \<Rightarrow> val \<times> rat" where
  "dict_diff f a b =
     (let acc = fold (dict_step f b) a
                  \<lparr>removed = [], nremoved = 0, nmatched = 0, smatched = 0, dchanged = []\<rparr>;
          added = dict_added a b;
          nadded = length added;
          n_tot = nremoved acc + nmatched acc + nadded;
          s = (if n_tot \<noteq> 0 then fdiv (smatched acc) (float_of_nat n_tot) else 1)
      in (emit_dict_diff (Dict a) (Dict b) s added (dchanged acc) (removed acc), s))"

subsection \<open>Tying the knot\<close>

text \<open>
  The container differs apply \<open>f\<close> only to elements of their operands; these congruence
  rules say so, and give the recursion of \<open>obj_diff\<close> its termination.
\<close>

declare list_diff_0.simps [simp del]

lemma lcs_row_cong:
  "(\<And>y. y \<in> set Y \<Longrightarrow> f x y = g x y) \<Longrightarrow> lcs_row f x Y prev left = lcs_row g x Y prev left"
  by (induction Y arbitrary: prev left) (simp_all add: Let_def)

lemma lcs_rows_cong:
  "(\<And>x y. x \<in> set X \<Longrightarrow> y \<in> set Y \<Longrightarrow> f x y = g x y) \<Longrightarrow> lcs_rows f X Y prev = lcs_rows g X Y prev"
proof (induction X arbitrary: prev)
  case Nil
  then show ?case by simp
next
  case (Cons x X)
  have "lcs_row f x Y prev 0 = lcs_row g x Y prev 0"
    by (rule lcs_row_cong) (simp add: Cons.prems)
  moreover have "\<And>p. lcs_rows f X Y p = lcs_rows g X Y p"
    by (rule Cons.IH) (simp add: Cons.prems)
  ultimately show ?case by simp
qed

lemma list_diff_0_cong:
  assumes "\<And>x y. x \<in> set X \<Longrightarrow> y \<in> set Y \<Longrightarrow> f x y = g x y"
  shows "i \<le> length X \<Longrightarrow> j \<le> length Y \<Longrightarrow> list_diff_0 f C X Y i j r = list_diff_0 g C X Y i j r"
proof (induction "i + j" arbitrary: i j r rule: less_induct)
  case less
  have fg: "f (X ! (i - 1)) (Y ! (j - 1)) = g (X ! (i - 1)) (Y ! (j - 1))" if "0 < i" "0 < j"
    using less.prems that by (intro assms) simp_all
  have a: "list_diff_0 f C X Y (i - 1) (j - 1) r' = list_diff_0 g C X Y (i - 1) (j - 1) r'"
    if "0 < i" "0 < j" for r'
    using less.prems that by (intro less.hyps) simp_all
  have b: "list_diff_0 f C X Y i (j - 1) r' = list_diff_0 g C X Y i (j - 1) r'" if "0 < j" for r'
    using less.prems that by (intro less.hyps) simp_all
  have c: "list_diff_0 f C X Y (i - 1) j r' = list_diff_0 g C X Y (i - 1) j r'" if "0 < i" for r'
    using less.prems that by (intro less.hyps) simp_all
  show ?case
  proof (cases "0 < i \<and> 0 < j")
    case True
    then show ?thesis
      unfolding list_diff_0.simps [of f C X Y i j r] list_diff_0.simps [of g C X Y i j r]
      by (simp only: fg a b c True)
  next
    case False
    then show ?thesis
      unfolding list_diff_0.simps [of f C X Y i j r] list_diff_0.simps [of g C X Y i j r]
      by (cases "0 < j"; cases "0 < i") (simp_all only: b c if_False if_True simp_thms)
  qed
qed


lemma list_diff_cong [fundef_cong]:
  assumes "X = X'" "Y = Y'" "\<And>x y. x \<in> set X' \<Longrightarrow> y \<in> set Y' \<Longrightarrow> f x y = g x y"
  shows "list_diff f mk X Y = list_diff g mk X' Y'"
proof -
  have "lcs_table f X' Y' = lcs_table g X' Y'"
    unfolding lcs_table_def using lcs_rows_cong [of X' Y' f g] assms(3) by simp
  moreover have "list_diff_0 f C X' Y' (length X') (length Y') [] = list_diff_0 g C X' Y' (length X') (length Y') []" for C
    by (rule list_diff_0_cong) (simp_all add: assms(3))
  ultimately show ?thesis
    unfolding list_diff_def list_diff_script_def assms(1,2) by simp
qed

lemma set_diff_ordered_cong:
  assumes "\<And>x y. x \<in> set rmv \<Longrightarrow> y \<in> set adds \<Longrightarrow> f x y = g x y"
  shows "set_diff_ordered f a b rmv adds = set_diff_ordered g a b rmv adds"
proof -
  have "set_ranking f rmv adds = set_ranking g rmv adds"
    unfolding set_ranking_def
    by (intro arg_cong [where f = "sort_key _"] arg_cong [where f = concat] map_cong refl) (simp add: assms)
  then show ?thesis
    unfolding set_diff_ordered_def by simp
qed

lemma set_diff_cong [fundef_cong]:
  assumes "a = a'" "b = b'" "\<And>x y. x \<in> set a' \<Longrightarrow> y \<in> set b' \<Longrightarrow> f x y = g x y"
  shows "set_diff f a b = set_diff g a' b'"
  unfolding set_diff_def assms(1,2)
  by (rule set_diff_ordered_cong) (simp add: assms(3) set_difference_def)

lemma dict_step_cong:
  "(\<And>w. f (snd kv) w = g (snd kv) w) \<Longrightarrow> dict_step f b kv acc = dict_step g b kv acc"
  by (cases kv) (simp add: dict_step_def Let_def)

lemma dict_diff_cong [fundef_cong]:
  assumes "a = a'" "b = b'" "\<And>v w. v \<in> snd ` set a' \<Longrightarrow> f v w = g v w"
  shows "dict_diff f a b = dict_diff g a' b'"
proof -
  have "fold (dict_step f b') a' acc = fold (dict_step g b') a' acc" for acc
    by (rule fold_cong) (auto intro!: ext dict_step_cong assms(3))
  then show ?thesis
    unfolding dict_diff_def assms(1,2) by simp
qed

lemma size_in_list: "x \<in> set xs \<Longrightarrow> size x < Suc (size_list size xs)"
  by (induction xs) auto

lemma size_in_alist: "(k, v) \<in> set kvs \<Longrightarrow> size v < Suc (size_list (size_prod size size) kvs)"
  by (induction kvs) auto

text \<open>
  \<^verbatim>\<open>_obj_diff(a, b)\<close> for two distinct objects. Its first branch, \<^verbatim>\<open>a is b\<close>, is
  \<open>obj_diff_same\<close> below: values carry no object identity, so the caller says which of the
  two applies. The last two branches are \<open>value_diff\<close>; they are reached when the operands
  are not two dicts, two tuples, two lists or two sets, where Python's \<^verbatim>\<open>!=\<close> is \<open>\<noteq>\<close>.
\<close>

definition value_diff :: "val \<Rightarrow> val \<Rightarrow> val \<times> rat" where
  "value_diff a b =
     (if a \<noteq> b then (emit_value_diff a b 0, 0) else (emit_value_diff a b 1, 1))"

function obj_diff :: "val \<Rightarrow> val \<Rightarrow> val \<times> rat" where
  "obj_diff a b =
     (case (a, b) of
        (Dict x, Dict y) \<Rightarrow> dict_diff obj_diff x y
      | (Tuple x, Tuple y) \<Rightarrow> list_diff obj_diff Tuple x y
      | (List x, List y) \<Rightarrow> list_diff obj_diff List x y
      | (SetV x, SetV y) \<Rightarrow> set_diff obj_diff x y
      | _ \<Rightarrow> value_diff a b)"
  by pat_completeness auto
termination
  by (relation "measure (\<lambda>(a, b). size a)") (auto simp: size_in_list size_in_alist)

definition obj_diff_same :: "val \<Rightarrow> val \<times> rat" where
  "obj_diff_same a = (emit_value_diff a a 1, 1)"

declare obj_diff.simps [simp del]

text \<open>
  \<^verbatim>\<open>JsonDiffer.diff\<close> and \<^verbatim>\<open>JsonDiffer.similarity\<close> with the default options
  (\<^verbatim>\<open>load\<close>, \<^verbatim>\<open>dump\<close> and \<^verbatim>\<open>marshal\<close> all false, the compact syntax).
\<close>

definition diff :: "val \<Rightarrow> val \<Rightarrow> val" where
  "diff a b = fst (obj_diff a b)"

definition similarity :: "val \<Rightarrow> val \<Rightarrow> rat" where
  "similarity a b = snd (obj_diff a b)"

section \<open>The compact syntax: patching\<close>

text \<open>
  \<^verbatim>\<open>for x in v\<close>: the elements a value yields when iterated over. A dict yields its keys,
  a string its characters; \<^verbatim>\<open>None\<close>, numbers and markers are not iterable.
\<close>

fun iter_val :: "val \<Rightarrow> error + val list" where
  "iter_val (List xs) = Inr xs"
| "iter_val (Tuple xs) = Inr xs"
| "iter_val (SetV xs) = Inr xs"
| "iter_val (Dict kvs) = Inr (map fst kvs)"
| "iter_val (Str s) = Inr (map (\<lambda>c. Str [c]) s)"
| "iter_val v = Inl TypeError"

text \<open>
  A list position, as \<^verbatim>\<open>list.pop\<close> and \<^verbatim>\<open>list.insert\<close> take it: an \<^verbatim>\<open>int\<close>; any other
  value is a TypeError. (Python also rejects a \<^verbatim>\<open>float\<close> with a whole value, such as
  \<^verbatim>\<open>2.0\<close>; the values of the model are taken up to Python's equality and do not tell it
  from \<^verbatim>\<open>2\<close>.) The two methods convert the position to a C \<^verbatim>\<open>ssize_t\<close>, 64 bits wide,
  and raise OverflowError when it does not fit.
\<close>

fun as_index :: "val \<Rightarrow> error + int" where
  "as_index (IntV i) = Inr i"
| "as_index v = Inl TypeError"

definition fits_ssize_t :: "int \<Rightarrow> bool" where
  "fits_ssize_t i = (- (2 ^ 63) \<le> i \<and> i < 2 ^ 63)"

text \<open>\<^verbatim>\<open>a.pop(pos)\<close>: a negative position counts from the end.\<close>

definition list_pop :: "val list \<Rightarrow> int \<Rightarrow> error + val list" where
  "list_pop a pos =
     (if \<not> fits_ssize_t pos then Inl OverflowError
      else
        (let n = int (length a); i = (if pos < 0 then pos + n else pos)
         in if 0 \<le> i \<and> i < n then Inr (take (nat i) a @ drop (nat i + 1) a)
            else Inl IndexError))"

text \<open>\<^verbatim>\<open>a.insert(pos, value)\<close>: a position that fits is clamped to the list.\<close>

definition list_insert :: "val list \<Rightarrow> int \<Rightarrow> val \<Rightarrow> error + val list" where
  "list_insert a pos v =
     (if \<not> fits_ssize_t pos then Inl OverflowError
      else
        (let n = int (length a); i = (if pos < 0 then max 0 (pos + n) else min pos n)
         in Inr (take (nat i) a @ v # drop (nat i) a)))"

text \<open>
  The position \<^verbatim>\<open>a[k]\<close> reads and writes; an index out of range, also one that does
  not fit a C \<^verbatim>\<open>ssize_t\<close>, is an IndexError.
\<close>

definition list_index :: "val list \<Rightarrow> int \<Rightarrow> error + nat" where
  "list_index a k =
     (let n = int (length a); i = (if k < 0 then k + n else k)
      in if 0 \<le> i \<and> i < n then Inr (nat i) else Inl IndexError)"

text \<open>
  \<^verbatim>\<open>int(k)\<close>. Of a string Python reads a decimal literal: optional surrounding white
  space, an optional sign, digits, with single underscores allowed between digits.
  The white space \<^verbatim>\<open>int\<close> strips is, among the characters up to U+00FF, the six ASCII
  ones, U+0085 and U+00A0; the decimal digits among these characters are \<^verbatim>\<open>0\<close> to \<^verbatim>\<open>9\<close>.
\<close>

definition is_space :: "char \<Rightarrow> bool" where
  "is_space c =
     (c \<in> set [CHR '' '', CHR 0x09, CHR 0x0A, CHR 0x0B, CHR 0x0C, CHR 0x0D, CHR 0x85, CHR 0xA0])"

definition digit_of :: "char \<Rightarrow> nat option" where
  "digit_of c = (let n = of_char c :: nat in if 48 \<le> n \<and> n \<le> 57 then Some (n - 48) else None)"

fun digits_value :: "string \<Rightarrow> nat \<Rightarrow> nat option" where
  "digits_value [] acc = Some acc"
| "digits_value (c # cs) acc =
     (if c = CHR ''_''
      then (case cs of [] \<Rightarrow> None
            | c' # cs' \<Rightarrow> (case digit_of c' of None \<Rightarrow> None
                           | Some d \<Rightarrow> digits_value cs' (10 * acc + d)))
      else (case digit_of c of None \<Rightarrow> None | Some d \<Rightarrow> digits_value cs (10 * acc + d)))"

definition unsigned_value :: "string \<Rightarrow> nat option" where
  "unsigned_value s =
     (case s of [] \<Rightarrow> None
      | c # cs \<Rightarrow> (case digit_of c of None \<Rightarrow> None | Some d \<Rightarrow> digits_value cs d))"

definition int_of_string :: "string \<Rightarrow> int option" where
  "int_of_string s =
     (let t = rev (dropWhile is_space (rev (dropWhile is_space s)))
      in case t of
           [] \<Rightarrow> None
         | c # cs \<Rightarrow>
             if c = CHR ''-'' then map_option (\<lambda>n. - int n) (unsigned_value cs)
             else if c = CHR ''+'' then map_option int (unsigned_value cs)
             else map_option int (unsigned_value t))"

fun py_int :: "val \<Rightarrow> error + int" where
  "py_int (IntV i) = Inr i"
| "py_int (FloatV q) = Inr (if 0 \<le> q then \<lfloor>q\<rfloor> else \<lceil>q\<rceil>)"
| "py_int (Str s) = (case int_of_string s of None \<Rightarrow> Inl ValueError | Some i \<Rightarrow> Inr i)"
| "py_int v = Inl TypeError"

text \<open>\<^verbatim>\<open>for kdel in v: del a[kdel]\<close>\<close>

fun dict_del_all :: "(val \<times> val) list \<Rightarrow> val list \<Rightarrow> error + (val \<times> val) list" where
  "dict_del_all a [] = Inr a"
| "dict_del_all a (kdel # ks) =
     (if \<not> hashable kdel then Inl TypeError
      else if map_of a kdel = None then Inl KeyError
      else dict_del_all (AList.delete kdel a) ks)"

text \<open>\<^verbatim>\<open>for pos in d[delete]: a.pop(pos)\<close>\<close>

fun list_pop_all :: "val list \<Rightarrow> val list \<Rightarrow> error + val list" where
  "list_pop_all a [] = Inr a"
| "list_pop_all a (pos # ps) =
     (case as_index pos of Inl e \<Rightarrow> Inl e
      | Inr i \<Rightarrow> (case list_pop a i of Inl e \<Rightarrow> Inl e | Inr a' \<Rightarrow> list_pop_all a' ps))"

text \<open>
  \<^verbatim>\<open>for pos, value in d[insert]: a.insert(pos, value)\<close>: each entry is unpacked into
  exactly two values.
\<close>

fun list_insert_all :: "val list \<Rightarrow> val list \<Rightarrow> error + val list" where
  "list_insert_all a [] = Inr a"
| "list_insert_all a (e # es) =
     (case iter_val e of Inl err \<Rightarrow> Inl err
      | Inr [pos, value] \<Rightarrow>
          (case as_index pos of Inl err \<Rightarrow> Inl err
           | Inr i \<Rightarrow> (case list_insert a i value of Inl err \<Rightarrow> Inl err
                        | Inr a' \<Rightarrow> list_insert_all a' es))
      | Inr other \<Rightarrow> Inl ValueError)"

text \<open>The two \<^verbatim>\<open>if ... in d\<close> blocks of the sequence branch.\<close>

definition list_delete_insert :: "val list \<Rightarrow> (val \<times> val) list \<Rightarrow> error + val list" where
  "list_delete_insert a d =
     (case (case map_of d (Sym Delete) of None \<Rightarrow> Inr a
            | Some v \<Rightarrow> (case iter_val v of Inl e \<Rightarrow> Inl e | Inr ps \<Rightarrow> list_pop_all a ps)) of
        Inl e \<Rightarrow> Inl e
      | Inr a \<Rightarrow>
          (case map_of d (Sym Insert) of None \<Rightarrow> Inr a
           | Some v \<Rightarrow> (case iter_val v of Inl e \<Rightarrow> Inl e | Inr es \<Rightarrow> list_insert_all a es)))"

text \<open>
  \<^verbatim>\<open>a.discard(x)\<close> and \<^verbatim>\<open>a.add(x)\<close>. \<^verbatim>\<open>discard\<close> looks a set argument up as a frozenset,
  which no element of a set of the model is; any other unhashable value is a TypeError.
  The result lists the elements that are left in their old order and the new ones behind
  them; Python iterates over the new set in the order of its hash table, so of the
  result only the elements are meant, not their order.
\<close>

fun set_discard_all :: "val list \<Rightarrow> val list \<Rightarrow> error + val list" where
  "set_discard_all a [] = Inr a"
| "set_discard_all a (x # xs) =
     (case x of SetV ys \<Rightarrow> set_discard_all a xs
      | _ \<Rightarrow> if \<not> hashable x then Inl TypeError else set_discard_all (removeAll x a) xs)"

fun set_add_all :: "val list \<Rightarrow> val list \<Rightarrow> error + val list" where
  "set_add_all a [] = Inr a"
| "set_add_all a (x # xs) =
     (if \<not> hashable x then Inl TypeError
      else set_add_all (if x \<in> set a then a else a @ [x]) xs)"

definition patch_set :: "val list \<Rightarrow> (val \<times> val) list \<Rightarrow> error + val list" where
  "patch_set a d =
     (case (case map_of d (Sym Discard) of None \<Rightarrow> Inr a
            | Some v \<Rightarrow> (case iter_val v of Inl e \<Rightarrow> Inl e | Inr xs \<Rightarrow> set_discard_all a xs)) of
        Inl e \<Rightarrow> Inl e
      | Inr a \<Rightarrow>
          (case map_of d (Sym Add) of None \<Rightarrow> Inr a
           | Some v \<Rightarrow> (case iter_val v of Inl e \<Rightarrow> Inl e | Inr xs \<Rightarrow> set_add_all a xs)))"

text \<open>
  \<^verbatim>\<open>CompactJsonDiffSyntax.patch(a, d)\<close>. \<open>patch_dict a items\<close> is the loop of the dict
  branch over the items of \<open>d\<close> that are left, \<open>a\<close> being the working copy; \<open>patch_list\<close>
  is the last loop of the sequence branch.
\<close>

fun patch :: "val \<Rightarrow> val \<Rightarrow> error + val"
  and patch_dict :: "(val \<times> val) list \<Rightarrow> (val \<times> val) list \<Rightarrow> error + (val \<times> val) list"
  and patch_list :: "val list \<Rightarrow> (val \<times> val) list \<Rightarrow> error + val list" where
  "patch a (Dict d) =
     (if d = [] then Inr a
      else case map_of d (Sym Replace) of
        Some r \<Rightarrow> Inr r
      | None \<Rightarrow>
         (case a of
            Dict kvs \<Rightarrow>
              (case patch_dict kvs d of Inl e \<Rightarrow> Inl e | Inr kvs' \<Rightarrow> Inr (Dict kvs'))
          | List xs \<Rightarrow>
              (case list_delete_insert xs d of Inl e \<Rightarrow> Inl e
               | Inr xs' \<Rightarrow> (case patch_list xs' d of Inl e \<Rightarrow> Inl e | Inr xs'' \<Rightarrow> Inr (List xs'')))
          | Tuple xs \<Rightarrow>
              (case list_delete_insert xs d of Inl e \<Rightarrow> Inl e
               | Inr xs' \<Rightarrow> (case patch_list xs' d of Inl e \<Rightarrow> Inl e | Inr xs'' \<Rightarrow> Inr (Tuple xs'')))
          | SetV xs \<Rightarrow>
              (case patch_set xs d of Inl e \<Rightarrow> Inl e | Inr xs' \<Rightarrow> Inr (SetV xs'))
          | _ \<Rightarrow> Inr (Dict d)))"
| "patch a d = Inr d"
| "patch_dict a [] = Inr a"
| "patch_dict a ((k, v) # items) =
     (if k = Sym Delete
      then (case iter_val v of Inl e \<Rightarrow> Inl e
            | Inr ks \<Rightarrow> (case dict_del_all a ks of Inl e \<Rightarrow> Inl e
                         | Inr a' \<Rightarrow> patch_dict a' items))
      else
        (let av = dict_get_missing a k
         in if av = Sym Missing then patch_dict (AList.update k v a) items
            else (case patch av v of Inl e \<Rightarrow> Inl e
                  | Inr r \<Rightarrow> patch_dict (AList.update k r a) items)))"
| "patch_list a [] = Inr a"
| "patch_list a ((k, v) # items) =
     (if k \<noteq> Sym Delete \<and> k \<noteq> Sym Insert
      then (case py_int k of Inl e \<Rightarrow> Inl e
            | Inr i \<Rightarrow> (case list_index a i of Inl e \<Rightarrow> Inl e
                        | Inr n \<Rightarrow> (case patch (a ! n) v of Inl e \<Rightarrow> Inl e
                                    | Inr r \<Rightarrow> patch_list (a[n := r]) items)))
      else patch_list a items)"

text \<open>
  \<^verbatim>\<open>JsonDiffer.patch\<close> with the default options hands over to the syntax.
\<close>

definition JsonDiffer_patch :: "val \<Rightarrow> val \<Rightarrow> error + val" where
  "JsonDiffer_patch a d = patch a d"

text \<open>
  A syntax object, as far as \<^verbatim>\<open>JsonDiffer.patch\<close> and \<^verbatim>\<open>JsonDiffer.unpatch\<close> look into it:
  the methods \<^verbatim>\<open>patch\<close> and \<^verbatim>\<open>unpatch\<close>, each present or not. The class
  \<^verbatim>\<open>CompactJsonDiffSyntax\<close> defines \<^verbatim>\<open>emit_set_diff\<close>, \<^verbatim>\<open>emit_list_diff\<close>,
  \<^verbatim>\<open>emit_dict_diff\<close>, \<^verbatim>\<open>emit_value_diff\<close> and \<^verbatim>\<open>patch\<close>, and no \<^verbatim>\<open>unpatch\<close>.
\<close>

record syntax_methods =
  syntax_patch :: "(val \<Rightarrow> val \<Rightarrow> error + val) option"
  syntax_unpatch :: "(val \<Rightarrow> val \<Rightarrow> error + val) option"

definition CompactJsonDiffSyntax :: syntax_methods where
  "CompactJsonDiffSyntax = \<lparr>syntax_patch = Some patch, syntax_unpatch = None\<rparr>"

text \<open>
  \<^verbatim>\<open>JsonDiffer.unpatch(b, d)\<close> with \<^verbatim>\<open>load\<close>, \<^verbatim>\<open>dump\<close> and \<^verbatim>\<open>marshal\<close> false:
  \<^verbatim>\<open>self.options.syntax.unpatch(b, d)\<close>; looking up a method the object does not have
  raises AttributeError.
\<close>

definition JsonDiffer_unpatch :: "syntax_methods \<Rightarrow> val \<Rightarrow> val \<Rightarrow> error + val" where
  "JsonDiffer_unpatch syn b d =
     (case syntax_unpatch syn of None \<Rightarrow> Inl AttributeError | Some unpatch \<Rightarrow> unpatch b d)"

section \<open>Marshalling\<close>

text \<open>
  Modelled from the spec: the labels of the markers and the list \<^verbatim>\<open>_all_symbols_\<close>; the
  module \<^verbatim>\<open>ujsondiff/symbols.py\<close> that defines them is not among the sources. The spec
  names the markers add, delete, discard, insert, replace and missing, and escapes a
  marker as the escape token followed by its name.
\<close>

fun label :: "symbol \<Rightarrow> string" where
  "label Add = ''add''"
| "label Delete = ''delete''"
| "label Discard = ''discard''"
| "label Insert = ''insert''"
| "label Replace = ''replace''"
| "label Missing = ''missing''"

definition all_symbols :: "symbol list" where
  "all_symbols = [Add, Delete, Discard, Insert, Replace, Missing]"

text \<open>\<^verbatim>\<open>x.startswith(p)\<close>\<close>

definition startswith :: "string \<Rightarrow> string \<Rightarrow> bool" where
  "startswith x p = (take (length p) x = p)"

text \<open>
  \<^verbatim>\<open>self._symbol_map\<close>, the dict comprehension of \<^verbatim>\<open>__init__\<close>: a later symbol with the
  same key replaces the earlier one.
\<close>

definition symbol_map :: "string \<Rightarrow> (string \<times> symbol) list" where
  "symbol_map escape_str =
     fold (\<lambda>symbol m. AList.update (escape_str @ label symbol) symbol m) all_symbols []"

text \<open>\<^verbatim>\<open>_escape(o)\<close> and \<^verbatim>\<open>_unescape(x)\<close>; \<^verbatim>\<open>x[1:]\<close> drops one character.\<close>

fun escape :: "string \<Rightarrow> val \<Rightarrow> val" where
  "escape escape_str (Sym s) = Str (escape_str @ label s)"
| "escape escape_str (Str x) = (if startswith x escape_str then Str (escape_str @ x) else Str x)"
| "escape escape_str v = v"

fun unescape :: "string \<Rightarrow> val \<Rightarrow> val" where
  "unescape escape_str (Str x) =
     (case map_of (symbol_map escape_str) x of
        Some symbol \<Rightarrow> Sym symbol
      | None \<Rightarrow> if startswith x escape_str then Str (drop 1 x) else Str x)"
| "unescape escape_str v = v"

text \<open>
  A dict comprehension stores its items one after the other, so of two items with the
  same key the first keeps its place and the last its value.
\<close>

definition dict_of_items :: "(val \<times> val) list \<Rightarrow> (val \<times> val) list" where
  "dict_of_items items = fold (\<lambda>(k, v) d. AList.update k v d) items []"

text \<open>\<^verbatim>\<open>marshal(d)\<close> and \<^verbatim>\<open>unmarshal(d)\<close>: dicts, lists and tuples are walked, sets are not.\<close>

function marshal :: "string \<Rightarrow> val \<Rightarrow> val" where
  "marshal e (Dict kvs) = Dict (dict_of_items (map (\<lambda>kv. (escape e (fst kv), marshal e (snd kv))) kvs))"
| "marshal e (List xs) = List (map (marshal e) xs)"
| "marshal e (Tuple xs) = Tuple (map (marshal e) xs)"
| "marshal e (SetV xs) = escape e (SetV xs)"
| "marshal e (Str s) = escape e (Str s)"
| "marshal e (Sym s) = escape e (Sym s)"
| "marshal e (IntV i) = escape e (IntV i)"
| "marshal e (FloatV q) = escape e (FloatV q)"
| "marshal e Null = escape e Null"
  by pat_completeness auto
termination
  by (relation "measure (\<lambda>(e, d). size d)") (auto simp: size_in_list size_in_alist intro: size_in_alist [of "fst kv" "snd kv" for kv])

function unmarshal :: "string \<Rightarrow> val \<Rightarrow> val" where
  "unmarshal e (Dict kvs) = Dict (dict_of_items (map (\<lambda>kv. (unescape e (fst kv), unmarshal e (snd kv))) kvs))"
| "unmarshal e (List xs) = List (map (unmarshal e) xs)"
| "unmarshal e (Tuple xs) = Tuple (map (unmarshal e) xs)"
| "unmarshal e (SetV xs) = unescape e (SetV xs)"
| "unmarshal e (Str s) = unescape e (Str s)"
| "unmarshal e (Sym s) = unescape e (Sym s)"
| "unmarshal e (IntV i) = unescape e (IntV i)"
| "unmarshal e (FloatV q) = unescape e (FloatV q)"
| "unmarshal e Null = unescape e Null"
  by pat_completeness auto
termination
  by (relation "measure (\<lambda>(e, d). size d)") (auto simp: size_in_list size_in_alist intro: size_in_alist [of "fst kv" "snd kv" for kv])


text \<open>
  A chain of one-key dicts around a value, \<^verbatim>\<open>{"k": {"k": ... v}}\<close>: the inputs on which the
  scores of \<^verbatim>\<open>_dict_diff\<close> run through \<open>1 - 2\<^sup>-\<^sup>n\<close>.
\<close>

fun nested :: "nat \<Rightarrow> val \<Rightarrow> val" where
  "nested 0 v = v"
| "nested (Suc n) v = Dict [(Str ''k'', nested n v)]"

fun nested_delta :: "nat \<Rightarrow> val \<Rightarrow> val" where
  "nested_delta 0 v = v"
| "nested_delta (Suc n) v = Dict [(Str ''k'', nested_delta n v)]"

subsection \<open>Shapes of deltas\<close>

text \<open>
  The elements a delta lists under a marker, and the shape of a set delta: no
  \<open>replace\<close> entry, and under \<open>discard\<close> and \<open>add\<close> (where present) a collection of
  hashable values.
\<close>

definition listed :: "(val \<times> val) list \<Rightarrow> symbol \<Rightarrow> val list" where
  "listed d m =
     (case map_of d (Sym m) of None \<Rightarrow> []
      | Some v \<Rightarrow> (case iter_val v of Inl e \<Rightarrow> [] | Inr xs \<Rightarrow> xs))"

definition lists_hashable :: "(val \<times> val) list \<Rightarrow> symbol \<Rightarrow> bool" where
  "lists_hashable d m =
     (case map_of d (Sym m) of None \<Rightarrow> True
      | Some v \<Rightarrow> (case iter_val v of Inl e \<Rightarrow> False | Inr xs \<Rightarrow> list_all hashable xs))"

definition set_shaped :: "(val \<times> val) list \<Rightarrow> bool" where
  "set_shaped d =
     (map_of d (Sym Replace) = None \<and> lists_hashable d Discard \<and> lists_hashable d Add)"

text \<open>
  The entries of the delta \<open>d\<close> other than its \<open>delete\<close> entry patch the dict \<open>w\<close> without
  error: where \<open>w\<close> has the key of an entry, the nested patch of its value succeeds.
\<close>

definition entries_ok :: "(val \<times> val) list \<Rightarrow> (val \<times> val) list \<Rightarrow> bool" where
  "entries_ok w d =
     (\<forall>(k, v) \<in> set d. k \<noteq> Sym Delete \<longrightarrow>
        (case map_of w k of None \<Rightarrow> True
         | Some x \<Rightarrow> x = Sym Missing \<or> (case patch x v of Inl e \<Rightarrow> False | Inr r \<Rightarrow> True)))"

subsection \<open>Edit scripts\<close>


text \<open>The three tests of the loop of \<open>list_diff_0\<close> at \<open>(i, j)\<close>.\<close>

definition is_match :: "(val \<Rightarrow> val \<Rightarrow> val \<times> rat) \<Rightarrow> rat list list \<Rightarrow> val list \<Rightarrow> val list \<Rightarrow> nat \<Rightarrow> nat \<Rightarrow> bool" where
  "is_match f C X Y i j =
     (0 < i \<and> 0 < j \<and> 0 < snd (f (X ! (i - 1)) (Y ! (j - 1)))
      \<and> C ! i ! j = fadd (C ! (i - 1) ! (j - 1)) (snd (f (X ! (i - 1)) (Y ! (j - 1)))))"

definition is_insert :: "(val \<Rightarrow> val \<Rightarrow> val \<times> rat) \<Rightarrow> rat list list \<Rightarrow> val list \<Rightarrow> val list \<Rightarrow> nat \<Rightarrow> nat \<Rightarrow> bool" where
  "is_insert f C X Y i j =
     (\<not> is_match f C X Y i j \<and> 0 < j \<and> (i = 0 \<or> C ! (i - 1) ! j \<le> C ! i ! (j - 1)))"

definition is_delete :: "(val \<Rightarrow> val \<Rightarrow> val \<times> rat) \<Rightarrow> rat list list \<Rightarrow> val list \<Rightarrow> val list \<Rightarrow> nat \<Rightarrow> nat \<Rightarrow> bool" where
  "is_delete f C X Y i j =
     (\<not> is_match f C X Y i j \<and> \<not> is_insert f C X Y i j \<and> 0 < i)"



text \<open>
  What an entry \<^verbatim>\<open>(sign, value, pos, s)\<close> of an edit script for the first \<open>i\<close> elements of
  \<open>X\<close> and the first \<open>j\<close> elements of \<open>Y\<close> is: a match of some \<open>X[i']\<close> with \<open>Y[pos]\<close>
  carrying their nested delta and score, the insertion of \<open>Y[pos]\<close>, or the deletion of
  \<open>X[pos]\<close>.
\<close>

definition edit_ok :: "(val \<Rightarrow> val \<Rightarrow> val \<times> rat) \<Rightarrow> val list \<Rightarrow> val list \<Rightarrow> nat \<Rightarrow> nat \<Rightarrow> edit \<Rightarrow> bool" where
  "edit_ok f X Y i j e =
     (case e of (sign, value, pos, s) \<Rightarrow>
        sign = 0 \<and> pos < j \<and> (\<exists>i'<i. (value, s) = f (X ! i') (Y ! pos)) \<and> 0 < s
      \<or> sign = 1 \<and> pos < j \<and> value = Y ! pos \<and> s = 0
      \<or> sign = - 1 \<and> pos < i \<and> value = X ! pos \<and> s = 0)"

text \<open>The fields of an entry.\<close>

definition sign_of :: "edit \<Rightarrow> int" where
  "sign_of e = fst e"

definition pos_of :: "edit \<Rightarrow> nat" where
  "pos_of e = fst (snd (snd e))"

definition score_of :: "edit \<Rightarrow> rat" where
  "score_of e = snd (snd (snd e))"

definition script_inv :: "(val \<Rightarrow> val \<Rightarrow> val \<times> rat) \<Rightarrow> val list \<Rightarrow> val list \<Rightarrow> nat \<Rightarrow> nat \<Rightarrow> edit list \<Rightarrow> bool" where
  "script_inv f X Y i j S =
     (list_all (edit_ok f X Y i j) S
      \<and> map pos_of (filter (\<lambda>e. sign_of e \<noteq> - 1) S) = [0..<j]
      \<and> sorted_wrt (<) (map pos_of (filter (\<lambda>e. sign_of e = - 1) S))
      \<and> length (filter (\<lambda>e. sign_of e \<noteq> 1) S) = i)"



definition value_of :: "edit \<Rightarrow> val" where
  "value_of e = fst (snd e)"


subsection \<open>The score of two maps\<close>

text \<open>
  The claim's account of the score of two maps: the keys of \<open>a\<close> that \<open>b\<close> has too, in the
  order of \<open>a\<close>; the weight \<open>0.5 + 0.5 * s\<close> of each, summed from \<open>0.0\<close>; and the count of the
  removed, the matched and the added keys.
\<close>

definition keys_in_both :: "(val \<times> val) list \<Rightarrow> (val \<times> val) list \<Rightarrow> (val \<times> val) list" where
  "keys_in_both a b = filter (\<lambda>(k, v). map_of b k \<noteq> None) a"

definition matched_weight ::
  "(val \<Rightarrow> val \<Rightarrow> val \<times> rat) \<Rightarrow> (val \<times> val) list \<Rightarrow> (val \<times> val) list \<Rightarrow> rat" where
  "matched_weight f a b =
     foldl fadd 0
       (map (\<lambda>(k, v). fadd (1 / 2) (fmul (1 / 2) (snd (f v (dict_get_missing b k)))))
          (keys_in_both a b))"

definition key_count :: "(val \<times> val) list \<Rightarrow> (val \<times> val) list \<Rightarrow> nat" where
  "key_count a b =
     length (filter (\<lambda>(k, v). map_of b k = None) a) + length (keys_in_both a b)
       + length (filter (\<lambda>(k, v). map_of a k = None) b)"

subsection \<open>The greedy matching of two sets\<close>

text \<open>
  The claim's account of the greedy matching: going down the ranking, a pair whose two
  elements are both still unmatched is committed, until one of the pools is empty.
\<close>

fun greedy_matches ::
  "(rat \<times> val \<times> val) list \<Rightarrow> val list \<Rightarrow> val list \<Rightarrow> (rat \<times> val \<times> val) list" where
  "greedy_matches [] r2 a2 = []"
| "greedy_matches ((s, x, y) # ranking) r2 a2 =
     (if r2 = [] \<or> a2 = [] then []
      else if x \<in> set r2 \<and> y \<in> set a2
      then (s, x, y) # greedy_matches ranking (removeAll x r2) (removeAll y a2)
      else greedy_matches ranking r2 a2)"

text \<open>
  The claim's account of the ranking: every pair of an element of \<open>removed\<close> and an element
  of \<open>added\<close> with the similarity of the two, and a ranking of these pairs is a
  rearrangement of them with the scores descending in which pairs of the same score keep
  the order they are enumerated in (the stable order).
\<close>

definition pair_scores ::
  "(val \<Rightarrow> val \<Rightarrow> val \<times> rat) \<Rightarrow> val list \<Rightarrow> val list \<Rightarrow> (rat \<times> val \<times> val) list" where
  "pair_scores f rmv adds = map (\<lambda>(x, y). (snd (f x y), x, y)) (List.product rmv adds)"

definition is_ranking ::
  "(val \<Rightarrow> val \<Rightarrow> val \<times> rat) \<Rightarrow> val list \<Rightarrow> val list \<Rightarrow> (rat \<times> val \<times> val) list \<Rightarrow> bool" where
  "is_ranking f rmv adds rk =
     (mset rk = mset (pair_scores f rmv adds)
      \<and> sorted_wrt (\<lambda>t u. fst u \<le> fst t) rk
      \<and> (\<forall>t \<in> set rk. filter (\<lambda>u. fst u = fst t) rk
                        = filter (\<lambda>u. fst u = fst t) (pair_scores f rmv adds)))"

subsection \<open>The input of marshal\<close>

text \<open>
  Every dict that \<open>marshal\<close> walks into has distinct keys, as a Python dict has. (Sets are
  not walked.)
\<close>

fun dict_keys_distinct :: "val \<Rightarrow> bool" where
  "dict_keys_distinct (Dict kvs) =
     (distinct (map fst kvs) \<and> list_all dict_keys_distinct (map snd kvs))"
| "dict_keys_distinct (List xs) = list_all dict_keys_distinct xs"
| "dict_keys_distinct (Tuple xs) = list_all dict_keys_distinct xs"
| "dict_keys_distinct v = True"

text \<open>The escape tokens of one character that no marker name starts with.\<close>

definition safe_token :: "char \<Rightarrow> bool" where
  "safe_token c = (c \<notin> set (map (\<lambda>s. hd (label s)) all_symbols))"

subsection \<open>Equal values\<close>

text \<open>
  The dicts of a value a user can build: the keys of a dict are distinct, and no value
  of a dict is a marker (\<^verbatim>\<open>_dict_diff\<close> reads a marker as the absence of the key).
\<close>

fun plain_dicts :: "val \<Rightarrow> bool" where
  "plain_dicts (Dict kvs) =
     (distinct (map fst kvs) \<and> list_all (\<lambda>v. \<not> is_Sym v \<and> plain_dicts v) (map snd kvs))"
| "plain_dicts (List xs) = list_all plain_dicts xs"
| "plain_dicts (Tuple xs) = list_all plain_dicts xs"
| "plain_dicts v = True"

text \<open>
  Python's \<^verbatim>\<open>==\<close> on values: two dicts are equal when they have the same number of items
  and every key of the first has an equal value in the second, whatever the order of the
  items; two lists, or two tuples, when they are equal element by element; two sets when
  they have the same elements; two other values when they are the same value of the
  model.
\<close>

function py_eq :: "val \<Rightarrow> val \<Rightarrow> bool" where
  "py_eq a b =
     (case (a, b) of
        (Dict x, Dict y) \<Rightarrow>
          length x = length y
          \<and> (\<forall>kv \<in> set x. case map_of y (fst kv) of None \<Rightarrow> False | Some w \<Rightarrow> py_eq (snd kv) w)
      | (List xs, List ys) \<Rightarrow> list_all2 py_eq xs ys
      | (Tuple xs, Tuple ys) \<Rightarrow> list_all2 py_eq xs ys
      | (SetV xs, SetV ys) \<Rightarrow> set xs = set ys
      | _ \<Rightarrow> a = b)"
  by pat_completeness auto
termination
  by (relation "measure (\<lambda>(a, b). size a)")
     (auto simp: size_in_list size_in_alist intro: size_in_alist [of "fst kv" "snd kv" for kv])

declare py_eq.simps [simp del]

section \<open>The rounding of floats\<close>

lemma pow2_powi: "pow2 e = 2 powi e"
  by (simp add: pow2_def power_int_def field_simps)

lemma pow2_add: "pow2 (a + b) = pow2 a * pow2 b"
  by (simp add: pow2_powi power_int_add)

lemma pow2_pos: "0 < pow2 e"
  by (simp add: pow2_powi)

lemma pow2_nz [simp]: "pow2 e \<noteq> 0"
  using pow2_pos [of e] by auto

lemma pow2_ge0 [simp]: "0 \<le> pow2 e"
  using pow2_pos [of e] by auto

lemma pow2_shift53: "pow2 (E + 1) = 2 ^ 53 * pow2 (E - 52)"
proof -
  have "E + 1 = 53 + (E - 52)" by simp
  show ?thesis unfolding \<open>E + 1 = 53 + (E - 52)\<close> pow2_add by (simp add: pow2_def [of 53])
qed

lemma pow2_shift52: "pow2 E = 2 ^ 52 * pow2 (E - 52)"
proof -
  have "pow2 (52 + (E - 52)) = pow2 52 * pow2 (E - 52)" by (rule pow2_add)
  then show ?thesis by (simp add: pow2_def [of 52])
qed


lemma pow2_nat: "pow2 (int k) = 2 ^ k"
  by (simp add: pow2_def)

lemma pow2_neg_nat: "pow2 (- int k) = 1 / 2 ^ k"
  by (simp add: pow2_powi power_int_minus field_simps)

lemma pow2_Suc: "pow2 (e + 1) = 2 * pow2 e"
  using pow2_add [of e 1] by (simp add: pow2_def [of 1])

lemma pow2_mono: "a \<le> b \<Longrightarrow> pow2 a \<le> pow2 b"
  by (simp add: pow2_powi power_int_increasing)

lemma pow2_lessD: "pow2 a < pow2 b \<Longrightarrow> a < b"
  using pow2_mono [of b a] by (cases "a < b") simp_all

lemma ilog2_bounds:
  assumes "0 < x"
  shows "pow2 (ilog2 x) \<le> x \<and> x < pow2 (ilog2 x + 1)"
proof (cases "1 \<le> x")
  case True
  define n where "n = nat \<lfloor>x\<rfloor>"
  have n: "0 < n" "of_nat n \<le> x" "x < of_nat n + 1"
    using True floor_correct [of x] by (auto simp: n_def le_nat_floor)
  from floorlog_bounds [of n 2] n(1)
  have b: "2 ^ (floorlog 2 n - 1) \<le> n" "n < 2 ^ floorlog 2 n" by auto
  have fl0: "0 < floorlog 2 n" using n(1) by (simp add: floorlog_def)
  have e: "ilog2 x = int (floorlog 2 n) - 1" using True by (simp add: ilog2_def n_def)
  have p: "pow2 (ilog2 x) = 2 ^ (floorlog 2 n - 1)"
    using fl0 by (simp add: e pow2_def nat_diff_distrib)
  have "(2::rat) ^ (floorlog 2 n - 1) \<le> of_nat n"
    using of_nat_mono [OF b(1), where 'a = rat] by simp
  then have 1: "pow2 (ilog2 x) \<le> x" using n(2) unfolding p by linarith
  have "n + 1 \<le> 2 ^ floorlog 2 n" using b(2) by simp
  from of_nat_mono [OF this, where 'a = rat]
  have "of_nat n + 1 \<le> (2::rat) ^ floorlog 2 n" by simp
  moreover have "pow2 (ilog2 x + 1) = 2 ^ floorlog 2 n" by (simp add: e pow2_def)
  ultimately have "x < pow2 (ilog2 x + 1)" using n(3) by linarith
  then show ?thesis using 1 by simp
next
  case False
  define y where "y = 1 / x"
  have y: "1 < y" using False assms by (simp add: y_def)
  define n where "n = nat \<lfloor>y\<rfloor>"
  have n: "0 < n" "of_nat n \<le> y" "y < of_nat n + 1"
    using y floor_correct [of y] by (auto simp: n_def le_nat_floor)
  define k where "k = floorlog 2 n - 1"
  from floorlog_bounds [of n 2] n(1)
  have b: "2 ^ k \<le> n" "n < 2 ^ floorlog 2 n" by (auto simp: k_def)
  have fl0: "0 < floorlog 2 n" using n(1) by (simp add: floorlog_def)
  have k1: "floorlog 2 n = k + 1" using fl0 by (simp add: k_def)
  have "(2::rat) ^ k \<le> of_nat n"
    using of_nat_mono [OF b(1), where 'a = rat] by simp
  then have lo: "2 ^ k \<le> y" using n(2) by linarith
  have "n + 1 \<le> 2 ^ (k + 1)" using b(2) unfolding k1 by simp
  from of_nat_mono [OF this, where 'a = rat]
  have "of_nat n + 1 \<le> (2::rat) ^ (k + 1)" by simp
  then have hi: "y < 2 ^ (k + 1)" using n(3) by linarith
  have xk: "x * 2 ^ k \<le> 1" using lo assms by (simp add: y_def field_simps)
  have xk1: "1 < x * 2 ^ (k + 1)" using hi assms by (simp add: y_def field_simps)
  have e: "ilog2 x = (if x * 2 ^ k = 1 then - int k else - int k - 1)"
    using False by (simp add: ilog2_def Let_def k_def n_def y_def)
  show ?thesis
  proof (cases "x * 2 ^ k = 1")
    case True
    then have x: "x = 1 / 2 ^ k" by (simp add: field_simps)
    have "ilog2 x = - int k" using True e by simp
    then have "pow2 (ilog2 x) = x" by (simp add: pow2_neg_nat x)
    then have "pow2 (ilog2 x) = x" "pow2 (ilog2 x + 1) = 2 * x"
      unfolding pow2_Suc by simp_all
    then show ?thesis using assms by simp
  next
    case F: False
    with xk have lt: "x * 2 ^ k < 1" by simp
    have "ilog2 x = - int (k + 1)" using F e by simp
    then have p: "pow2 (ilog2 x) = 1 / 2 ^ (k + 1)" "pow2 (ilog2 x + 1) = 1 / 2 ^ k"
      using pow2_neg_nat [of "k + 1"] pow2_neg_nat [of k] by simp_all
    have "1 / 2 ^ (k + 1) \<le> x" using xk1 by (simp add: field_simps)
    moreover have "x < 1 / 2 ^ k" using lt by (simp add: field_simps)
    ultimately show ?thesis unfolding p by simp
  qed
qed

lemma ilog2_le: "0 < x \<Longrightarrow> x \<le> y \<Longrightarrow> ilog2 x \<le> ilog2 y"
proof -
  assume a: "0 < x" "x \<le> y"
  then have "pow2 (ilog2 x) < pow2 (ilog2 y + 1)"
    using ilog2_bounds [of x] ilog2_bounds [of y] by linarith
  then show ?thesis using pow2_lessD by fastforce
qed

lemma round_even_of_int [simp]: "round_even (of_int z) = z"
  by (simp add: round_even_def)

lemma round_even_bounds: "\<lfloor>m\<rfloor> \<le> round_even m \<and> round_even m \<le> \<lfloor>m\<rfloor> + 1"
  by (simp add: round_even_def Let_def)

lemma round_even_mono: "m1 \<le> m2 \<Longrightarrow> round_even m1 \<le> round_even m2"
proof -
  assume le: "m1 \<le> m2"
  have f: "\<lfloor>m1\<rfloor> \<le> \<lfloor>m2\<rfloor>" using le by (rule floor_mono)
  show ?thesis
  proof (cases "\<lfloor>m1\<rfloor> = \<lfloor>m2\<rfloor>")
    case True
    then have "m1 - of_int \<lfloor>m1\<rfloor> \<le> m2 - of_int \<lfloor>m2\<rfloor>" using le by simp
    then show ?thesis using True by (auto simp: round_even_def Let_def)
  next
    case False
    then have "\<lfloor>m1\<rfloor> + 1 \<le> \<lfloor>m2\<rfloor>" using f by simp
    then show ?thesis using round_even_bounds [of m1] round_even_bounds [of m2] by linarith
  qed
qed

lemma fl_pos_unfold:
  "0 < x \<Longrightarrow> fl x = of_int (round_even (x / pow2 (max (ilog2 x) (- 1022) - 52))) * pow2 (max (ilog2 x) (- 1022) - 52)"
  by (simp add: fl_def Let_def)

lemma fl_exact:
  assumes m: "0 < m" "m < 2 ^ 53" and e: "- 1074 \<le> e"
  shows "fl (of_int m * pow2 e) = of_int m * pow2 e"
proof -
  define x where "x = of_int m * pow2 e"
  have x: "0 < x" using m pow2_pos [of e] by (simp add: x_def)
  define E where "E = max (ilog2 x) (- 1022)"
  have "pow2 (ilog2 x) \<le> x" using ilog2_bounds [OF x] by simp
  also have "x < 2 ^ 53 * pow2 e"
  proof -
    have "(of_int m :: rat) < of_int (2 ^ 53)" using m(2) by (simp only: of_int_less_iff)
    then have "(of_int m :: rat) < 2 ^ 53" by simp
    then show ?thesis unfolding x_def using pow2_pos [of e] by (simp only: mult_less_cancel_right_pos)
  qed
  also have "\<dots> = pow2 (53 + e)" using pow2_add [of 53 e] by (simp add: pow2_def [of 53])
  finally have "ilog2 x < 53 + e" by (rule pow2_lessD)
  then have d: "0 \<le> e - (E - 52)" using e by (simp add: E_def)
  define k where "k = nat (e - (E - 52))"
  have "pow2 e = pow2 (int k) * pow2 (E - 52)"
    using pow2_add [of "int k" "E - 52"] d by (simp add: k_def)
  then have "x / pow2 (E - 52) = of_int (m * 2 ^ k)"
    by (simp add: x_def pow2_nat)
  then have "fl x = of_int (m * 2 ^ k) * pow2 (E - 52)"
    unfolding fl_pos_unfold [OF x] E_def [symmetric] by (simp only: round_even_of_int)
  also have "\<dots> = x" using \<open>pow2 e = pow2 (int k) * pow2 (E - 52)\<close> by (simp add: x_def pow2_nat)
  finally show ?thesis by (simp add: x_def)
qed

lemma fl_0 [simp]: "fl 0 = 0"
  by (simp add: fl_def)

lemma fl_of_nat: "n \<le> 2 ^ 53 \<Longrightarrow> fl (of_nat n) = of_nat n"
proof -
  assume n: "n \<le> 2 ^ 53"
  consider "n = 0" | "0 < n" "n < 2 ^ 53" | "n = 2 ^ 53" using n by fastforce
  then show ?thesis
  proof cases
    case 1
    then show ?thesis by simp
  next
    case 2
    then have "0 < int n" "int n < 2 ^ 53" by simp_all
    from fl_exact [OF this, of 0] show ?thesis by (simp add: pow2_def)
  next
    case 3
    from fl_exact [of 1 53] show ?thesis by (simp add: pow2_def 3)
  qed
qed

lemma fl_nonneg: "0 \<le> x \<Longrightarrow> 0 \<le> fl x"
proof (cases "x = 0")
  case False
  assume "0 \<le> x"
  with False have x: "0 < x" by simp
  have "0 \<le> x / pow2 (max (ilog2 x) (- 1022) - 52)"
    using x pow2_pos by (intro divide_nonneg_pos) simp_all
  then have "0 \<le> round_even (x / pow2 (max (ilog2 x) (- 1022) - 52))"
    using round_even_mono [of 0] round_even_of_int [of 0] by (metis of_int_0)
  then show ?thesis unfolding fl_pos_unfold [OF x] by (intro mult_nonneg_nonneg) simp_all
qed simp

lemma fl_mono:
  assumes "0 \<le> x" "x \<le> y"
  shows "fl x \<le> fl y"
proof (cases "x = 0")
  case True
  then show ?thesis using fl_nonneg [of y] assms by simp
next
  case False
  then have x: "0 < x" and y: "0 < y" using assms by simp_all
  define Ex where "Ex = max (ilog2 x) (- 1022)"
  define Ey where "Ey = max (ilog2 y) (- 1022)"
  have fx: "fl x = of_int (round_even (x / pow2 (Ex - 52))) * pow2 (Ex - 52)"
    unfolding Ex_def by (rule fl_pos_unfold [OF x])
  have fy: "fl y = of_int (round_even (y / pow2 (Ey - 52))) * pow2 (Ey - 52)"
    unfolding Ey_def by (rule fl_pos_unfold [OF y])
  have le: "Ex \<le> Ey" using ilog2_le [OF x assms(2)] by (simp add: Ex_def Ey_def)
  show ?thesis
  proof (cases "Ex = Ey")
    case True
    have "x / pow2 (Ey - 52) \<le> y / pow2 (Ey - 52)"
      using assms(2) by (intro divide_right_mono) simp_all
    then have "round_even (x / pow2 (Ey - 52)) \<le> round_even (y / pow2 (Ey - 52))"
      by (rule round_even_mono)
    then show ?thesis unfolding fx fy True by (simp add: mult_right_mono)
  next
    case False
    then have lt: "Ex < Ey" using le by simp
    then have Ey: "Ey = ilog2 y" by (simp add: Ex_def Ey_def max_def split: if_splits)
    have "x < pow2 (ilog2 x + 1)" using ilog2_bounds [OF x] by simp
    also have "\<dots> \<le> pow2 (Ex + 1)" by (rule pow2_mono) (simp add: Ex_def)
    also have "\<dots> = 2 ^ 53 * pow2 (Ex - 52)" by (rule pow2_shift53)
    finally have "x / pow2 (Ex - 52) \<le> of_int (2 ^ 53)"
      using pow2_pos [of "Ex - 52"] by (simp add: field_simps)
    then have "round_even (x / pow2 (Ex - 52)) \<le> 2 ^ 53"
      using round_even_mono round_even_of_int by metis
    then have "of_int (round_even (x / pow2 (Ex - 52))) \<le> (2 ^ 53 :: rat)"
      using of_int_le_iff [of _ "2 ^ 53", where 'a = rat] by simp
    then have "fl x \<le> 2 ^ 53 * pow2 (Ex - 52)"
      unfolding fx by (simp add: mult_right_mono)
    also have "\<dots> = pow2 (Ex + 1)" by (rule pow2_shift53 [symmetric])
    also have "\<dots> \<le> pow2 Ey" by (rule pow2_mono) (use lt in simp)
    finally have 1: "fl x \<le> pow2 Ey" .
    have "pow2 Ey \<le> y" using ilog2_bounds [OF y] by (simp add: Ey)
    moreover have "pow2 Ey = 2 ^ 52 * pow2 (Ey - 52)" by (rule pow2_shift52)
    ultimately have "of_int (2 ^ 52) \<le> y / pow2 (Ey - 52)"
      using pow2_pos [of "Ey - 52"] by (simp add: field_simps)
    then have "2 ^ 52 \<le> round_even (y / pow2 (Ey - 52))"
      using round_even_mono round_even_of_int by metis
    then have "(2 ^ 52 :: rat) \<le> of_int (round_even (y / pow2 (Ey - 52)))"
      using of_int_le_iff [of "2 ^ 52", where 'a = rat] by simp
    then have "2 ^ 52 * pow2 (Ey - 52) \<le> fl y"
      unfolding fy by (simp add: mult_right_mono)
    then have "pow2 Ey \<le> fl y" using \<open>pow2 Ey = 2 ^ 52 * pow2 (Ey - 52)\<close> by simp
    then show ?thesis using 1 by linarith
  qed
qed


lemma fl_1 [simp]: "fl 1 = 1"
  using fl_of_nat [of 1] by simp

lemma fl_half [simp]: "fl (1 / 2) = 1 / 2"
  using fl_exact [of 1 "- 1"] by (simp add: pow2_def)

lemma fl_one_minus: "n \<le> 53 \<Longrightarrow> fl (1 - 1 / 2 ^ n) = 1 - 1 / 2 ^ n"
proof (cases "n = 0")
  case False
  assume n: "n \<le> 53"
  have "(2::int) ^ n \<le> 2 ^ 53" using n by (intro power_increasing) simp_all
  moreover have "(2::int) ^ n \<ge> 2 ^ 1" using False by (intro power_increasing) simp_all
  ultimately have m: "0 < (2::int) ^ n - 1" "(2::int) ^ n - 1 < 2 ^ 53" by simp_all
  have eq: "of_int (2 ^ n - 1) * pow2 (- int n) = (1 - 1 / 2 ^ n :: rat)"
    unfolding pow2_neg_nat by (simp add: field_simps)
  show ?thesis using fl_exact [OF m, of "- int n"] n unfolding eq by simp
qed simp

lemma fl_half_minus: "n \<le> 53 \<Longrightarrow> fl (1 / 2 * (1 - 1 / 2 ^ n)) = 1 / 2 - 1 / 2 ^ (n + 1)"
proof (cases "n = 0")
  case False
  assume n: "n \<le> 53"
  have "(2::int) ^ n \<le> 2 ^ 53" using n by (intro power_increasing) simp_all
  moreover have "(2::int) ^ n \<ge> 2 ^ 1" using False by (intro power_increasing) simp_all
  ultimately have m: "0 < (2::int) ^ n - 1" "(2::int) ^ n - 1 < 2 ^ 53" by simp_all
  have eq: "of_int (2 ^ n - 1) * pow2 (- int (n + 1)) = (1 / 2 * (1 - 1 / 2 ^ n) :: rat)"
    unfolding pow2_neg_nat by (simp add: field_simps)
  have "fl (1 / 2 * (1 - 1 / 2 ^ n)) = 1 / 2 * (1 - 1 / 2 ^ n)"
    using fl_exact [OF m, of "- int (n + 1)"] n unfolding eq by simp
  also have "\<dots> = 1 / 2 - 1 / 2 ^ (n + 1)" by (simp add: field_simps)
  finally show ?thesis .
qed simp

lemma fl_saturates: "fl (1 - 1 / 2 ^ 54) = 1"
  by code_simp

section \<open>The claims\<close>

lemma float_of_nat_1 [simp]: "float_of_nat 1 = 1" "float_of_nat (Suc 0) = 1"
  by (simp_all add: float_of_nat_def)

lemma score_step:
  assumes "fl (1 / 2 * s) = h" "fl (1 / 2 + h) = t" "fl t = t"
  shows "fdiv (fadd 0 (fadd (1 / 2) (fmul (1 / 2) s))) 1 = t"
  using assms by (simp add: fdiv_def fadd_def fmul_def)

lemma dict_diff_single:
  assumes "\<not> is_Sym b" "f a b = (d, s)"
  shows "dict_diff f [(k, a)] [(k, b)] =
    (let s' = fdiv (fadd 0 (fadd (1 / 2) (fmul (1 / 2) s))) 1
     in (emit_dict_diff (Dict [(k, a)]) (Dict [(k, b)]) s' [] (if s < 1 then [(k, d)] else []) [], s'))"
  using assms
  by (simp add: dict_diff_def dict_step_def dict_get_missing_def dict_added_def Let_def)

lemma nested_not_Sym: "\<not> is_Sym (nested n (IntV i))"
  by (cases n) simp_all

lemma obj_diff_nested_Suc:
  "obj_diff (nested (Suc n) v) (nested (Suc n) w) = dict_diff obj_diff [(Str ''k'', nested n v)] [(Str ''k'', nested n w)]"
  by (simp add: obj_diff.simps)

lemma nested_chain:
  "n \<le> 53 \<Longrightarrow> obj_diff (nested n (IntV 1)) (nested n (IntV 2)) = (nested_delta n (IntV 2), 1 - 1 / 2 ^ n)"
proof (induction n)
  case 0
  show ?case
    by (simp add: obj_diff.simps value_diff_def emit_value_diff_def replace_or_value_def)
next
  case (Suc n)
  then have IH: "obj_diff (nested n (IntV 1)) (nested n (IntV 2)) = (nested_delta n (IntV 2), 1 - 1 / 2 ^ n)"
    and n: "n \<le> 53" "Suc n \<le> 53" by simp_all
  have lt: "(1 - 1 / 2 ^ n :: rat) < 1" by simp
  have b: "(1 / 2 + (1 / 2 - 1 / 2 ^ (n + 1)) :: rat) = 1 - 1 / 2 ^ Suc n" by simp
  have s: "fdiv (fadd 0 (fadd (1 / 2) (fmul (1 / 2) (1 - 1 / 2 ^ n)))) 1 = 1 - 1 / 2 ^ Suc n"
    by (rule score_step [OF fl_half_minus [OF n(1)]])
      (simp_all only: b fl_one_minus [OF n(2)])
  have "(1::rat) < 2 ^ Suc n" by (rule one_less_power) simp_all
  then have "(2::rat) ^ Suc n \<noteq> 1" by linarith
  then have ne0: "(1 - 1 / 2 ^ Suc n :: rat) \<noteq> 0" by (simp add: field_simps del: power_Suc)
  have ne1: "(1 - 1 / 2 ^ Suc n :: rat) \<noteq> 1" by simp
  show ?case
    unfolding obj_diff_nested_Suc dict_diff_single [where f = obj_diff and b = "nested n (IntV 2)", OF nested_not_Sym IH] Let_def s
    using lt ne0 ne1 by (simp add: emit_dict_diff_def dict_update_all_def del: power_Suc)
qed

lemma nested_top:
  "obj_diff (nested 54 (IntV 1)) (nested 54 (IntV 2)) = (Dict [], 1)"
proof -
  have 54: "(54::nat) = Suc 53" by simp
  have IH: "obj_diff (nested 53 (IntV 1)) (nested 53 (IntV 2)) = (nested_delta 53 (IntV 2), 1 - 1 / 2 ^ 53)"
    by (rule nested_chain) simp
  have h: "fl (1 / 2 * (1 - 1 / 2 ^ 53)) = 1 / 2 - 1 / 2 ^ (53 + 1)"
    by (rule fl_half_minus) simp
  have b: "(1 / 2 + (1 / 2 - 1 / 2 ^ (53 + 1)) :: rat) = 1 - 1 / 2 ^ 54" by simp
  have s: "fdiv (fadd 0 (fadd (1 / 2) (fmul (1 / 2) (1 - 1 / 2 ^ 53)))) 1 = 1"
    by (rule score_step [OF h]) (simp_all only: b fl_saturates fl_1)
  show ?thesis
    unfolding 54 obj_diff_nested_Suc
      dict_diff_single [where f = obj_diff and b = "nested 53 (IntV 2)", OF nested_not_Sym IH] Let_def s
    by (simp add: emit_dict_diff_def)
qed

lemma nested_inject: "nested n v = nested n w \<Longrightarrow> v = w"
  by (induction n) simp_all

lemma nested_is_Dict: "nested (Suc n) v = Dict [(Str ''k'', nested n v)]"
  by simp

text \<open>
  C1. The round trip \<^verbatim>\<open>patch(a, diff(a, b)) == b\<close> does not hold for the code. Take for \<open>a\<close>
  and \<open>b\<close> the dicts \<^verbatim>\<open>{"k": {"k": ... 1}}\<close> and \<^verbatim>\<open>{"k": {"k": ... 2}}\<close>, nested 54 deep.
  The score of the dicts \<open>n\<close> levels above the leaves is \<open>0.5 + 0.5 * s\<close> of the level
  below, that is \<open>1 - 2\<^sup>-\<^sup>n\<close>, up to \<open>n = 53\<close>; at \<open>n = 54\<close> the sum \<open>1 - 2\<^sup>-\<^sup>5\<^sup>4\<close> is not a
  float and rounds to \<open>1.0\<close>, which \<^verbatim>\<open>emit_dict_diff\<close> reads as "no change". The delta is
  the empty dict, the similarity is \<open>1.0\<close>, and the patch returns \<open>a\<close>, which is not \<open>b\<close>.
\<close>

theorem roundtrip_fails_deep_dict:
  "diff (nested 54 (IntV 1)) (nested 54 (IntV 2)) = Dict []
   \<and> similarity (nested 54 (IntV 1)) (nested 54 (IntV 2)) = 1
   \<and> JsonDiffer_patch (nested 54 (IntV 1)) (diff (nested 54 (IntV 1)) (nested 54 (IntV 2)))
       = Inr (nested 54 (IntV 1))
   \<and> nested 54 (IntV 1) \<noteq> nested 54 (IntV 2)"
proof -
  have "nested 54 (IntV 1) \<noteq> nested 54 (IntV 2)"
    using nested_inject [of 54 "IntV 1" "IntV 2"] by auto
  then show ?thesis
    by (simp add: diff_def similarity_def JsonDiffer_patch_def nested_top)
qed


text \<open>
  C3. \<^verbatim>\<open>JsonDiffer.unpatch\<close> calls \<^verbatim>\<open>self.options.syntax.unpatch\<close>, a method that the compact
  syntax does not define: with the default syntax every call of \<^verbatim>\<open>unpatch\<close> raises
  AttributeError, whatever the target and the delta are.
\<close>

theorem unpatch_compact_fails:
  "JsonDiffer_unpatch CompactJsonDiffSyntax b d = Inl AttributeError"
  by (simp add: JsonDiffer_unpatch_def CompactJsonDiffSyntax_def)

lemma dict_del_all_result:
  "list_all hashable ks \<Longrightarrow>
     (if distinct ks \<and> set ks \<subseteq> dom (map_of a)
      then \<exists>a'. dict_del_all a ks = Inr a' \<and> (\<forall>k. map_of a' k = (if k \<in> set ks then None else map_of a k))
      else dict_del_all a ks = Inl KeyError)"
proof (induction ks arbitrary: a)
  case Nil
  then show ?case by simp
next
  case (Cons k ks)
  then have h: "hashable k" "list_all hashable ks" by simp_all
  show ?case
  proof (cases "map_of a k")
    case None
    then have "k \<notin> dom (map_of a)" by (simp add: domIff)
    then show ?thesis using h None by simp
  next
    case (Some x)
    then have in_a: "k \<in> dom (map_of a)" by (simp add: domIff)
    have keys: "dom (map_of (AList.delete k a)) = dom (map_of a) - {k}"
      by (simp add: delete_conv')
    have m: "map_of (AList.delete k a) k' = (if k' = k then None else map_of a k')" for k'
      by (simp add: delete_conv')
    have step: "dict_del_all a (k # ks) = dict_del_all (AList.delete k a) ks"
      using h Some by simp
    show ?thesis
    proof (cases "k \<in> set ks")
      case True
      then have "\<not> set ks \<subseteq> dom (map_of (AList.delete k a))" unfolding keys by blast
      with Cons.IH [OF h(2), of "AList.delete k a"]
      have "dict_del_all (AList.delete k a) ks = Inl KeyError" by simp
      then show ?thesis unfolding step using True by simp
    next
      case False
      have eq: "(distinct (k # ks) \<and> set (k # ks) \<subseteq> dom (map_of a))
        \<longleftrightarrow> (distinct ks \<and> set ks \<subseteq> dom (map_of (AList.delete k a)))"
        unfolding keys using in_a False by auto
      show ?thesis
      proof (cases "distinct ks \<and> set ks \<subseteq> dom (map_of (AList.delete k a))")
        case True
        with Cons.IH [OF h(2), of "AList.delete k a"]
        obtain a' where a': "dict_del_all (AList.delete k a) ks = Inr a'"
          "\<forall>k'. map_of a' k' = (if k' \<in> set ks then None else map_of (AList.delete k a) k')"
          by auto
        have "\<forall>k'. map_of a' k' = (if k' \<in> set (k # ks) then None else map_of a k')"
          using a'(2) by (simp add: m)
        then show ?thesis unfolding step using a'(1) True eq by simp
      next
        case F: False
        with Cons.IH [OF h(2), of "AList.delete k a"]
        have "dict_del_all (AList.delete k a) ks = Inl KeyError" by simp
        then show ?thesis unfolding step using F eq by simp
      qed
    qed
  qed
qed


lemma patch_dict_no_delete:
  "Sym Delete \<notin> fst ` set d \<Longrightarrow> distinct (map fst d) \<Longrightarrow> entries_ok w d \<Longrightarrow>
     \<exists>w'. patch_dict w d = Inr w'"
proof (induction d arbitrary: w)
  case Nil
  then show ?case by simp
next
  case (Cons kv d)
  obtain k v where kv: "kv = (k, v)" by (cases kv)
  have k: "k \<noteq> Sym Delete" "k \<notin> fst ` set d" "distinct (map fst d)" "Sym Delete \<notin> fst ` set d"
    using Cons.prems kv by auto
  have ok: "entries_ok (AList.update k r w) d" for r
    unfolding entries_ok_def
  proof (intro ballI, clarify)
    fix k' v'
    assume in_d: "(k', v') \<in> set d" and nd: "k' \<noteq> Sym Delete"
    have "k' \<noteq> k" using in_d k(2) by force
    then have "map_of (AList.update k r w) k' = map_of w k'" by (simp add: update_conv')
    moreover have "case map_of w k' of None \<Rightarrow> True
         | Some x \<Rightarrow> x = Sym Missing \<or> (case patch x v' of Inl e \<Rightarrow> False | Inr r \<Rightarrow> True)"
      using Cons.prems(3) in_d nd unfolding entries_ok_def kv by fastforce
    ultimately show "case map_of (AList.update k r w) k' of None \<Rightarrow> True
         | Some x \<Rightarrow> x = Sym Missing \<or> (case patch x v' of Inl e \<Rightarrow> False | Inr r \<Rightarrow> True)"
      by simp
  qed
  show ?case
  proof (cases "dict_get_missing w k = Sym Missing")
    case True
    then show ?thesis using Cons.IH [OF k(4,3) ok] k(1) by (simp add: kv)
  next
    case False
    then obtain x where x: "map_of w k = Some x" "x \<noteq> Sym Missing" "dict_get_missing w k = x"
      by (auto simp: dict_get_missing_def split: option.splits)
    then obtain r where "patch x v = Inr r"
      using Cons.prems(3) k(1) unfolding entries_ok_def kv by (auto split: sum.splits)
    then show ?thesis using Cons.IH [OF k(4,3) ok] k(1) x by (simp add: kv)
  qed
qed

lemma entries_ok_Cons: "entries_ok w (kv # d) \<Longrightarrow> entries_ok w d"
  by (simp add: entries_ok_def)

lemma entries_ok_cong:
  "entries_ok w d \<Longrightarrow> (\<And>k. k \<in> fst ` set d \<Longrightarrow> map_of w' k = None \<or> map_of w' k = map_of w k)
     \<Longrightarrow> entries_ok w' d"
  unfolding entries_ok_def by (fastforce split: option.splits)

lemma listed_Cons_other: "k \<noteq> Sym m \<Longrightarrow> listed ((k, v) # d) m = listed d m"
  by (simp add: listed_def)

lemma lists_hashable_Cons_other: "k \<noteq> Sym m \<Longrightarrow> lists_hashable ((k, v) # d) m = lists_hashable d m"
  by (simp add: lists_hashable_def)

lemma listed_absent: "Sym m \<notin> fst ` set d \<Longrightarrow> listed d m = []"
  by (simp add: listed_def map_of_eq_None_iff [THEN iffD2])

lemma patch_dict_key_error:
  assumes "distinct (map fst d)" "lists_hashable d Delete" "entries_ok w d"
  shows "if distinct (listed d Delete)
            \<and> set (listed d Delete) \<subseteq> dom (map_of w) \<union> fst ` set (takeWhile (\<lambda>kv. fst kv \<noteq> Sym Delete) d)
         then \<exists>w'. patch_dict w d = Inr w'
         else patch_dict w d = Inl KeyError"
  using assms
proof (induction d arbitrary: w)
  case Nil
  then show ?case by (simp add: listed_def)
next
  case (Cons kv d)
  obtain k v where kv: "kv = (k, v)" by (cases kv)
  have nk: "k \<notin> fst ` set d" and dd: "distinct (map fst d)" using Cons.prems(1) kv by auto
  have okd: "entries_ok w d" using Cons.prems(3) by (rule entries_ok_Cons)
  show ?case
  proof (cases "k = Sym Delete")
    case True
    from Cons.prems(2) obtain ks where ks: "iter_val v = Inr ks" "list_all hashable ks"
      unfolding kv True lists_hashable_def by (auto split: sum.splits)
    have l: "listed (kv # d) Delete = ks" unfolding kv True listed_def using ks(1) by simp
    have tw: "takeWhile (\<lambda>kv. fst kv \<noteq> Sym Delete) (kv # d) = []" by (simp add: kv True)
    have nd: "Sym Delete \<notin> fst ` set d" using nk True by simp
    show ?thesis
    proof (cases "distinct ks \<and> set ks \<subseteq> dom (map_of w)")
      case T: True
      with dict_del_all_result [OF ks(2), of w]
      obtain w' where w': "dict_del_all w ks = Inr w'"
        "\<forall>k. map_of w' k = (if k \<in> set ks then None else map_of w k)" by auto
      have "entries_ok w' d" using okd by (rule entries_ok_cong) (simp add: w'(2))
      from patch_dict_no_delete [OF nd dd this]
      show ?thesis unfolding l tw using T w'(1) ks(1) by (simp add: kv True)
    next
      case F: False
      with dict_del_all_result [OF ks(2), of w]
      have "dict_del_all w ks = Inl KeyError" by simp
      then show ?thesis unfolding l tw using F ks(1) by (simp add: kv True)
    qed
  next
    case False
    have l: "listed (kv # d) Delete = listed d Delete"
      unfolding kv using False by (rule listed_Cons_other)
    have lh: "lists_hashable d Delete"
      using Cons.prems(2) unfolding kv lists_hashable_Cons_other [OF False] .
    have tw: "fst ` set (takeWhile (\<lambda>kv. fst kv \<noteq> Sym Delete) (kv # d))
        = {k} \<union> fst ` set (takeWhile (\<lambda>kv. fst kv \<noteq> Sym Delete) d)"
      using False by (simp add: kv)
    have okr: "entries_ok (AList.update k r w) d" for r
      using okd by (rule entries_ok_cong) (use nk in \<open>auto simp: update_conv'\<close>)
    have dm: "dom (map_of (AList.update k r w)) = {k} \<union> dom (map_of w)" for r
      by (simp add: update_conv')
    have "\<exists>r. patch_dict w (kv # d) = patch_dict (AList.update k r w) d"
    proof (cases "dict_get_missing w k = Sym Missing")
      case True
      then show ?thesis using False by (auto simp: kv)
    next
      case F: False
      then obtain x where x: "map_of w k = Some x" "x \<noteq> Sym Missing" "dict_get_missing w k = x"
        by (auto simp: dict_get_missing_def split: option.splits)
      then obtain r where "patch x v = Inr r"
        using Cons.prems(3) False unfolding entries_ok_def kv by (auto split: sum.splits)
      then show ?thesis using False x by (auto simp: kv)
    qed
    then obtain r where r: "patch_dict w (kv # d) = patch_dict (AList.update k r w) d" ..
    from Cons.IH [OF dd lh okr, of r]
    show ?thesis unfolding r l tw dm by (simp add: Un_assoc)
  qed
qed

text \<open>
  C9, as the code has it. Let \<open>d\<close> be a delta for a dict \<open>a\<close>: not empty, without a \<open>replace\<close>
  entry, its \<open>delete\<close> entry (if any) a collection of hashable keys, and its other entries
  patching without error where \<open>a\<close> has their key. Then the patch fails, with KeyError,
  exactly when the \<open>delete\<close> entry lists a key twice or lists a key that the working copy
  does not have when the deletions are made: a key that is neither in \<open>a\<close> nor set by an
  entry of \<open>d\<close> before the \<open>delete\<close> entry. Otherwise it returns a dict. An entry for a key
  that \<open>a\<close> lacks is no failure: its value is stored under the new key.
\<close>

theorem dict_patch_key_error:
  assumes "d \<noteq> []" "map_of d (Sym Replace) = None" "distinct (map fst d)"
    and "lists_hashable d Delete" "entries_ok a d"
  shows "if distinct (listed d Delete)
            \<and> set (listed d Delete) \<subseteq> fst ` set a \<union> fst ` set (takeWhile (\<lambda>kv. fst kv \<noteq> Sym Delete) d)
         then \<exists>r. patch (Dict a) (Dict d) = Inr (Dict r)
         else patch (Dict a) (Dict d) = Inl KeyError"
proof -
  have p: "patch (Dict a) (Dict d)
      = (case patch_dict a d of Inl e \<Rightarrow> Inl e | Inr kvs' \<Rightarrow> Inr (Dict kvs'))"
    using assms(1,2) by simp
  from patch_dict_key_error [OF assms(3,4,5)]
  show ?thesis unfolding p dom_map_of_conv_image_fst by (auto split: if_splits)
qed

theorem dict_patch_key_error_witness:
  "patch (Dict [(Str ''x'', IntV 1)]) (Dict [(Sym Delete, List [Str ''y''])]) = Inl KeyError
   \<and> entries_ok [(Str ''x'', IntV 1)] [(Sym Delete, List [Str ''y''])]
   \<and> lists_hashable [(Sym Delete, List [Str ''y''])] Delete"
proof -
  have h: "lists_hashable [(Sym Delete, List [Str ''y''])] Delete"
    "entries_ok [(Str ''x'', IntV 1)] [(Sym Delete, List [Str ''y''])]"
    by (simp_all add: lists_hashable_def entries_ok_def)
  from dict_patch_key_error [of "[(Sym Delete, List [Str ''y''])]" "[(Str ''x'', IntV 1)]", OF _ _ _ h]
  show ?thesis using h by (simp add: listed_def)
qed

text \<open>
  C9 as stated fails: the delta \<^verbatim>\<open>{"y": 2}\<close> targets the key \<^verbatim>\<open>"y"\<close>, which the base
  \<^verbatim>\<open>{"x": 1}\<close> lacks, and the patch succeeds.
\<close>

theorem absent_key_entry_inserted:
  "map_of [(Str ''x'', IntV 1)] (Str ''y'') = None
   \<and> patch (Dict [(Str ''x'', IntV 1)]) (Dict [(Str ''y'', IntV 2)])
       = Inr (Dict [(Str ''x'', IntV 1), (Str ''y'', IntV 2)])"
  by (simp add: dict_get_missing_def)


lemma set_discard_all_ok:
  "list_all hashable xs \<Longrightarrow> \<exists>r. set_discard_all a xs = Inr r \<and> set r = set a - set xs"
proof (induction xs arbitrary: a)
  case Nil
  then show ?case by simp
next
  case (Cons x xs)
  then have h: "hashable x" "list_all hashable xs" by simp_all
  from Cons.IH [OF h(2), of "removeAll x a"]
  obtain r where r: "set_discard_all (removeAll x a) xs = Inr r" "set r = set (removeAll x a) - set xs"
    by blast
  have "set_discard_all a (x # xs) = Inr r"
    using h(1) r(1) by (cases x) simp_all
  then show ?case using r(2) by auto
qed

lemma set_add_all_ok:
  "list_all hashable xs \<Longrightarrow> \<exists>r. set_add_all a xs = Inr r \<and> set r = set a \<union> set xs"
proof (induction xs arbitrary: a)
  case Nil
  then show ?case by simp
next
  case (Cons x xs)
  then have h: "hashable x" "list_all hashable xs" by simp_all
  from Cons.IH [OF h(2), of "if x \<in> set a then a else a @ [x]"]
  obtain r where "set_add_all (if x \<in> set a then a else a @ [x]) xs = Inr r"
    "set r = set (if x \<in> set a then a else a @ [x]) \<union> set xs" by blast
  then show ?case using h(1) by (auto split: if_splits)
qed

lemma patch_set_ok:
  assumes "lists_hashable d Discard" "lists_hashable d Add"
  shows "\<exists>r. patch_set a d = Inr r \<and> set r = (set a - set (listed d Discard)) \<union> set (listed d Add)"
proof -
  obtain r1 where r1: "(case map_of d (Sym Discard) of None \<Rightarrow> Inr a
            | Some v \<Rightarrow> (case iter_val v of Inl e \<Rightarrow> Inl e | Inr xs \<Rightarrow> set_discard_all a xs)) = Inr r1"
      "set r1 = set a - set (listed d Discard)"
    using assms(1) set_discard_all_ok [of _ a]
    by (fastforce simp: lists_hashable_def listed_def split: option.splits sum.splits)
  obtain r2 where r2: "(case map_of d (Sym Add) of None \<Rightarrow> Inr r1
           | Some v \<Rightarrow> (case iter_val v of Inl e \<Rightarrow> Inl e | Inr xs \<Rightarrow> set_add_all r1 xs)) = Inr r2"
      "set r2 = set r1 \<union> set (listed d Add)"
    using assms(2) set_add_all_ok [of _ r1]
    by (fastforce simp: lists_hashable_def listed_def split: option.splits sum.splits)
  show ?thesis unfolding patch_set_def r1(1) using r2 r1(2) by simp
qed

text \<open>
  C10. Patching a set never fails. For a set \<open>a\<close> and a set-shaped delta \<open>d\<close> (no \<open>replace\<close>
  entry; under \<open>discard\<close> and under \<open>add\<close>, where present, a collection of hashable values) the
  patch returns a set, whose elements are those of \<open>a\<close> that \<open>discard\<close> does not list together
  with those that \<open>add\<close> lists. An element listed under \<open>discard\<close> that \<open>a\<close> does not have
  changes nothing; the witness discards the absent element 7, and sets the failing
  deletion of an absent key from a dict beside it.
\<close>

theorem set_patch_never_fails:
  assumes "set_shaped d"
  shows "\<exists>r. patch (SetV a) (Dict d) = Inr (SetV r)
             \<and> set r = (set a - set (listed d Discard)) \<union> set (listed d Add)"
proof (cases "d = []")
  case True
  then show ?thesis by (simp add: listed_def)
next
  case False
  from assms have "lists_hashable d Discard" "lists_hashable d Add" "map_of d (Sym Replace) = None"
    by (simp_all add: set_shaped_def)
  with patch_set_ok [of d a] False show ?thesis by auto
qed

theorem set_patch_never_fails_witness:
  "set_shaped [(Sym Discard, List [IntV 1, IntV 7]), (Sym Add, List [IntV 4])]
   \<and> patch (SetV [IntV 1, IntV 2, IntV 3])
        (Dict [(Sym Discard, List [IntV 1, IntV 7]), (Sym Add, List [IntV 4])])
      = Inr (SetV [IntV 2, IntV 3, IntV 4])
   \<and> patch (Dict [(Str ''x'', IntV 1)]) (Dict [(Sym Delete, List [Str ''y''])]) = Inl KeyError"
proof -
  have s: "set_shaped [(Sym Discard, List [IntV 1, IntV 7]), (Sym Add, List [IntV 4])]"
    by (simp add: set_shaped_def lists_hashable_def)
  from set_patch_never_fails [OF s, of "[IntV 1, IntV 2, IntV 3]"]
  show ?thesis using s by (simp add: patch_set_def)
qed


subsection \<open>The edit script of the sequence differ\<close>

lemma list_diff_0_acc:
  "list_diff_0 f C X Y i j r = list_diff_0 f C X Y i j [] @ rev r"
proof (induction "i + j" arbitrary: i j r rule: less_induct)
  case less
  have a: "list_diff_0 f C X Y i' j' (r' @ [e]) = list_diff_0 f C X Y i' j' [] @ e # rev r'"
    if "i' + j' < i + j" for i' j' r' e
    using less.hyps [OF that, of "r' @ [e]"] by simp
  have b: "list_diff_0 f C X Y i' j' [e] = list_diff_0 f C X Y i' j' [] @ [e]"
    if "i' + j' < i + j" for i' j' e
    using less.hyps [OF that, of "[e]"] by simp
  show ?case
    unfolding list_diff_0.simps [of f C X Y i j r] list_diff_0.simps [of f C X Y i j "[]"]
    by (auto simp: a b)
qed

lemma script_match:
  "is_match f C X Y i j \<Longrightarrow> list_diff_0 f C X Y i j [] =
     list_diff_0 f C X Y (i - 1) (j - 1) []
       @ [(0, fst (f (X ! (i - 1)) (Y ! (j - 1))), j - 1, snd (f (X ! (i - 1)) (Y ! (j - 1))))]"
  unfolding list_diff_0.simps [of f C X Y i j "[]"]
  by (simp add: is_match_def list_diff_0_acc [of f C X Y _ _ "[_]"])

lemma script_insert:
  "is_insert f C X Y i j \<Longrightarrow> list_diff_0 f C X Y i j [] =
     list_diff_0 f C X Y i (j - 1) [] @ [(1, Y ! (j - 1), j - 1, 0)]"
  unfolding list_diff_0.simps [of f C X Y i j "[]"] is_insert_def is_match_def
  by (auto simp add: list_diff_0_acc [of f C X Y _ _ "[_]"])

lemma script_delete:
  "is_delete f C X Y i j \<Longrightarrow> list_diff_0 f C X Y i j [] =
     list_diff_0 f C X Y (i - 1) j [] @ [(- 1, X ! (i - 1), i - 1, 0)]"
  unfolding list_diff_0.simps [of f C X Y i j "[]"] is_delete_def is_insert_def is_match_def
  by (auto simp add: list_diff_0_acc [of f C X Y _ _ "[_]"])

lemma script_stop:
  "\<not> is_match f C X Y i j \<Longrightarrow> \<not> is_insert f C X Y i j \<Longrightarrow> \<not> is_delete f C X Y i j \<Longrightarrow>
     i = 0 \<and> j = 0 \<and> list_diff_0 f C X Y i j [] = []"
  unfolding list_diff_0.simps [of f C X Y i j "[]"] is_delete_def is_insert_def is_match_def
  by auto
lemma edit_ok_mono: "edit_ok f X Y i j e \<Longrightarrow> i \<le> i' \<Longrightarrow> j \<le> j' \<Longrightarrow> edit_ok f X Y i' j' e"
  unfolding edit_ok_def by (cases e) (auto intro: less_le_trans)

lemma list_all_edit_ok_mono:
  "list_all (edit_ok f X Y i j) S \<Longrightarrow> i \<le> i' \<Longrightarrow> j \<le> j' \<Longrightarrow> list_all (edit_ok f X Y i' j') S"
  by (auto simp: list_all_iff intro: edit_ok_mono)

lemma deletes_below:
  "list_all (edit_ok f X Y i j) S \<Longrightarrow> \<forall>p \<in> set (map pos_of (filter (\<lambda>e. sign_of e = - 1) S)). p < i"
  by (auto simp: list_all_iff edit_ok_def sign_of_def pos_of_def)

lemma script_inv_match:
  assumes "script_inv f X Y (i - 1) (j - 1) S" "0 < i" "0 < j" "0 < snd (f (X ! (i - 1)) (Y ! (j - 1)))"
  shows "script_inv f X Y i j (S @ [(0, fst (f (X ! (i - 1)) (Y ! (j - 1))), j - 1, snd (f (X ! (i - 1)) (Y ! (j - 1))))])"
proof -
  have 1: "list_all (edit_ok f X Y i j) S"
    using assms(1) by (auto simp: script_inv_def intro: list_all_edit_ok_mono)
  have 2: "edit_ok f X Y i j (0, fst (f (X ! (i - 1)) (Y ! (j - 1))), j - 1, snd (f (X ! (i - 1)) (Y ! (j - 1))))"
    using assms(2,3,4) unfolding edit_ok_def by (auto intro!: exI [of _ "i - 1"])
  have 3: "[0..<j - 1] @ [j - 1] = [0..<j]" using assms(3) by (cases j) simp_all
  show ?thesis
    using assms 1 2 3 by (simp add: script_inv_def sign_of_def pos_of_def)
qed

lemma script_inv_insert:
  assumes "script_inv f X Y i (j - 1) S" "0 < j"
  shows "script_inv f X Y i j (S @ [(1, Y ! (j - 1), j - 1, 0)])"
proof -
  have 1: "list_all (edit_ok f X Y i j) S"
    using assms(1) by (auto simp: script_inv_def intro: list_all_edit_ok_mono)
  have 2: "edit_ok f X Y i j (1, Y ! (j - 1), j - 1, 0)"
    using assms(2) unfolding edit_ok_def by simp
  have 3: "[0..<j - 1] @ [j - 1] = [0..<j]" using assms(2) by (cases j) simp_all
  show ?thesis
    using assms 1 2 3 by (simp add: script_inv_def sign_of_def pos_of_def)
qed

lemma script_inv_delete:
  assumes "script_inv f X Y (i - 1) j S" "0 < i"
  shows "script_inv f X Y i j (S @ [(- 1, X ! (i - 1), i - 1, 0)])"
proof -
  have 0: "list_all (edit_ok f X Y (i - 1) j) S" using assms(1) by (simp add: script_inv_def)
  then have 1: "list_all (edit_ok f X Y i j) S"
    by (rule list_all_edit_ok_mono) simp_all
  have 2: "edit_ok f X Y i j (- 1, X ! (i - 1), i - 1, 0)"
    using assms(2) unfolding edit_ok_def by simp
  have 3: "sorted_wrt (<) (map pos_of (filter (\<lambda>e. sign_of e = - 1) S) @ [i - 1])"
    using assms(1) deletes_below [OF 0] by (auto simp: script_inv_def sorted_wrt_append)
  show ?thesis
    using assms 1 2 3 by (simp add: script_inv_def sign_of_def pos_of_def)
qed

lemma script_inv_list_diff_0:
  "script_inv f X Y i j (list_diff_0 f C X Y i j [])"
proof (induction "i + j" arbitrary: i j rule: less_induct)
  case less
  consider (m) "is_match f C X Y i j" | (ins) "is_insert f C X Y i j" | (del) "is_delete f C X Y i j"
    | (stop) "\<not> is_match f C X Y i j" "\<not> is_insert f C X Y i j" "\<not> is_delete f C X Y i j"
    by blast
  then show ?case
  proof cases
    case m
    then have c: "0 < i" "0 < j" "0 < snd (f (X ! (i - 1)) (Y ! (j - 1)))" by (simp_all add: is_match_def)
    then have "script_inv f X Y (i - 1) (j - 1) (list_diff_0 f C X Y (i - 1) (j - 1) [])"
      by (intro less.hyps) simp
    then show ?thesis unfolding script_match [OF m] using c by (rule script_inv_match)
  next
    case ins
    then have c: "0 < j" by (simp add: is_insert_def)
    then have "script_inv f X Y i (j - 1) (list_diff_0 f C X Y i (j - 1) [])"
      by (intro less.hyps) simp
    then show ?thesis unfolding script_insert [OF ins] using c by (rule script_inv_insert)
  next
    case del
    then have c: "0 < i" by (simp add: is_delete_def)
    then have "script_inv f X Y (i - 1) j (list_diff_0 f C X Y (i - 1) j [])"
      by (intro less.hyps) simp
    then show ?thesis unfolding script_delete [OF del] using c by (rule script_inv_delete)
  next
    case stop
    from script_stop [OF this]
    have "i = 0" "j = 0" "list_diff_0 f C X Y i j [] = []" by blast+
    then show ?thesis by (simp only: script_inv_def) simp
  qed
qed

lemma script_inv_script: "script_inv f X Y (length X) (length Y) (list_diff_script f X Y)"
  unfolding list_diff_script_def by (rule script_inv_list_diff_0)
lemma list_step_fields:
  "inserted (list_step e acc) = (if sign_of e = 1 then inserted acc @ [(pos_of e, value_of e)] else inserted acc)"
  "deleted (list_step e acc) = (if sign_of e = - 1 then (pos_of e, value_of e) # deleted acc else deleted acc)"
  "changed (list_step e acc) =
     (if sign_of e = 0 \<and> score_of e < 1
      then AList.update (IntV (int (pos_of e))) (value_of e) (changed acc) else changed acc)"
  "tot_s (list_step e acc) = fadd (tot_s acc) (score_of e)"
  by (cases e; simp add: list_step_def sign_of_def pos_of_def value_of_def score_of_def Let_def)+

lemma collect_inserted:
  "inserted (fold list_step S acc)
     = inserted acc @ map (\<lambda>e. (pos_of e, value_of e)) (filter (\<lambda>e. sign_of e = 1) S)"
  by (induction S arbitrary: acc) (simp_all add: list_step_fields)

lemma collect_deleted:
  "deleted (fold list_step S acc)
     = rev (map (\<lambda>e. (pos_of e, value_of e)) (filter (\<lambda>e. sign_of e = - 1) S)) @ deleted acc"
  by (induction S arbitrary: acc) (simp_all add: list_step_fields)

lemma collect_changed:
  "changed (fold list_step S acc)
     = fold (\<lambda>e c. AList.update (IntV (int (pos_of e))) (value_of e) c)
         (filter (\<lambda>e. sign_of e = 0 \<and> score_of e < 1) S) (changed acc)"
  by (induction S arbitrary: acc) (simp_all add: list_step_fields)

lemma collect_tot_s:
  "tot_s (fold list_step S acc) = foldl fadd (tot_s acc) (map score_of S)"
  by (induction S arbitrary: acc) (simp_all add: list_step_fields)

lemma map_of_fold_update:
  "distinct (map k L) \<Longrightarrow> e \<in> set L \<Longrightarrow>
     map_of (fold (\<lambda>e c. AList.update (k e) (v e) c) L c) (k e) = Some (v e)"
proof (induction L rule: rev_induct)
  case Nil
  then show ?case by simp
next
  case (snoc x L)
  show ?case
  proof (cases "e = x")
    case True
    then show ?thesis by (simp add: update_conv')
  next
    case False
    then have e: "e \<in> set L" using snoc.prems(2) by simp
    have "k x \<notin> k ` set L" using snoc.prems(1) by simp
    moreover have "k e \<in> k ` set L" using e by (rule imageI)
    ultimately have "k e \<noteq> k x" by metis
    moreover have "map_of (fold (\<lambda>e c. AList.update (k e) (v e) c) L c) (k e) = Some (v e)"
      using snoc.prems(1) e by (intro snoc.IH) simp_all
    ultimately show ?thesis by (simp add: update_conv')
  qed
qed

lemma sorted_wrt_filter_map:
  "sorted_wrt (<) (map g (filter P S)) \<Longrightarrow> sorted_wrt (<) (map g (filter (\<lambda>e. P e \<and> Q e) S))"
proof -
  assume a: "sorted_wrt (<) (map g (filter P S))"
  have "filter (\<lambda>e. P e \<and> Q e) S = filter Q (filter P S)" by (simp add: conj_commute)
  then show ?thesis using a sorted_wrt_filter [of "\<lambda>x y. g x < g y" "filter P S" Q]
    by (simp add: sorted_wrt_map)
qed

lemma matches_distinct:
  assumes "script_inv f X Y i j S"
  shows "distinct (map (\<lambda>e. IntV (int (pos_of e))) (filter (\<lambda>e. sign_of e = 0 \<and> score_of e < 1) S))"
proof -
  have "sorted_wrt (<) (map pos_of (filter (\<lambda>e. sign_of e \<noteq> - 1) S))"
    using assms by (simp add: script_inv_def sorted_wrt_iff_nth_less)
  then have "sorted_wrt (<) (map pos_of (filter (\<lambda>e. sign_of e \<noteq> - 1 \<and> (sign_of e = 0 \<and> score_of e < 1)) S))"
    by (rule sorted_wrt_filter_map)
  moreover have "(\<lambda>e. sign_of e \<noteq> - 1 \<and> (sign_of e = 0 \<and> score_of e < 1)) = (\<lambda>e. sign_of e = 0 \<and> score_of e < 1)"
    by auto
  ultimately have "distinct (map pos_of (filter (\<lambda>e. sign_of e = 0 \<and> score_of e < 1) S))"
    using strict_sorted_iff [of "map pos_of _"] by (simp add: strict_sorted_iff)
  then show ?thesis
    by (simp add: distinct_map inj_on_def)
qed


lemma emit_list_diff_partial:
  assumes "s \<noteq> 0" "s \<noteq> 1"
  shows "\<exists>delta. emit_list_diff a b s ins chg del = Dict delta
     \<and> (\<forall>p. map_of delta (IntV p) = map_of chg (IntV p))
     \<and> (del \<noteq> [] \<longrightarrow> map_of delta (Sym Delete) = Some (List (map (\<lambda>(pos, value). IntV (int pos)) del)))"
proof -
  define d1 where "d1 = (if ins \<noteq> []
      then AList.update (Sym Insert) (List (map (\<lambda>(pos, value). Tuple [IntV (int pos), value]) ins)) chg
      else chg)"
  define d2 where "d2 = (if del \<noteq> []
      then AList.update (Sym Delete) (List (map (\<lambda>(pos, value). IntV (int pos)) del)) d1
      else d1)"
  have e: "emit_list_diff a b s ins chg del = Dict d2"
    using assms by (simp add: emit_list_diff_def Let_def d1_def d2_def)
  have 1: "map_of d1 (IntV p) = map_of chg (IntV p)" for p
    by (simp add: d1_def update_conv')
  have 2: "map_of d2 (IntV p) = map_of chg (IntV p)" for p
    using 1 [of p] by (simp add: d2_def update_conv')
  have 3: "del \<noteq> [] \<Longrightarrow> map_of d2 (Sym Delete) = Some (List (map (\<lambda>(pos, value). IntV (int pos)) del))"
    by (simp add: d2_def update_conv')
  show ?thesis using e 2 3 by blast
qed

text \<open>
  C5, as the code has it. A match of the edit script carries the target position: an entry
  \<^verbatim>\<open>(0, d, p, s)\<close> of the script has \<open>p < len(Y)\<close>, and \<open>(d, s)\<close> is the nested diff of some
  \<open>X[i]\<close> with \<open>Y[p]\<close>, where \<open>p\<close> is the index in the second sequence. When \<open>s < 1\<close> the
  nested delta \<open>d\<close> is stored in \<open>changed\<close> under \<open>p\<close>, and \<open>p\<close> is the key under which \<open>d\<close>
  stands in the emitted delta, whenever that is a partial delta (similarity neither 0
  nor 1).
\<close>

theorem changed_under_target_position:
  assumes "(0, d, p, s) \<in> set (list_diff_script f X Y)" "s < 1"
  shows "p < length Y \<and> (\<exists>i<length X. (d, s) = f (X ! i) (Y ! p))
     \<and> map_of (changed (list_collect (list_diff_script f X Y))) (IntV (int p)) = Some d
     \<and> (snd (list_diff f mk X Y) \<noteq> 0 \<and> snd (list_diff f mk X Y) \<noteq> 1 \<longrightarrow>
          (\<exists>delta. fst (list_diff f mk X Y) = Dict delta \<and> map_of delta (IntV (int p)) = Some d))"
proof -
  define S where "S = list_diff_script f X Y"
  define e :: edit where "e = (0, d, p, s)"
  have inv: "script_inv f X Y (length X) (length Y) S" unfolding S_def by (rule script_inv_script)
  have e: "e \<in> set S" using assms(1) by (simp add: e_def S_def)
  then have "edit_ok f X Y (length X) (length Y) e" using inv by (simp add: script_inv_def list_all_iff)
  then have 1: "p < length Y" "\<exists>i<length X. (d, s) = f (X ! i) (Y ! p)"
    by (auto simp: edit_ok_def e_def)
  have "e \<in> set (filter (\<lambda>e. sign_of e = 0 \<and> score_of e < 1) S)"
    using e assms(2) by (simp add: e_def sign_of_def score_of_def)
  from map_of_fold_update [OF matches_distinct [OF inv] this, of value_of "[]"]
  have 2: "map_of (changed (list_collect S)) (IntV (int p)) = Some d"
    unfolding list_collect_def collect_changed by (simp add: e_def pos_of_def value_of_def)
  have 3: "\<exists>delta. fst (list_diff f mk X Y) = Dict delta \<and> map_of delta (IntV (int p)) = Some d"
    if "snd (list_diff f mk X Y) \<noteq> 0" "snd (list_diff f mk X Y) \<noteq> 1"
  proof -
    have s: "list_similarity X (list_collect S) \<noteq> 0" "list_similarity X (list_collect S) \<noteq> 1"
      using that by (simp_all add: list_diff_def Let_def S_def)
    from emit_list_diff_partial [OF s]
    obtain delta where "emit_list_diff (mk X) (mk Y) (list_similarity X (list_collect S))
        (inserted (list_collect S)) (changed (list_collect S)) (deleted (list_collect S)) = Dict delta"
      "\<forall>p. map_of delta (IntV p) = map_of (changed (list_collect S)) (IntV p)"
      by blast
    then show ?thesis using 2 by (simp add: list_diff_def Let_def S_def)
  qed
  show ?thesis using 1 2 3 unfolding S_def by blast
qed

text \<open>
  C6, as the code has it. The \<open>deleted\<close> list holds the (position, value) pairs in
  descending order of the source position (each deletion is put in front of the list),
  and the \<open>delete\<close> entry of a partial sequence delta lists these positions in that
  order.
\<close>

theorem deleted_positions_descending:
  "sorted_wrt (\<lambda>p q. q < p) (map fst (deleted (list_collect (list_diff_script f X Y))))
   \<and> (snd (list_diff f mk X Y) \<noteq> 0 \<and> snd (list_diff f mk X Y) \<noteq> 1
        \<and> deleted (list_collect (list_diff_script f X Y)) \<noteq> [] \<longrightarrow>
      (\<exists>delta. fst (list_diff f mk X Y) = Dict delta
         \<and> map_of delta (Sym Delete)
             = Some (List (map (\<lambda>(pos, value). IntV (int pos))
                            (deleted (list_collect (list_diff_script f X Y)))))))"
proof -
  define S where "S = list_diff_script f X Y"
  have inv: "script_inv f X Y (length X) (length Y) S" unfolding S_def by (rule script_inv_script)
  have "map fst (deleted (list_collect S)) = rev (map pos_of (filter (\<lambda>e. sign_of e = - 1) S))"
    unfolding list_collect_def collect_deleted by (simp add: rev_map comp_def)
  moreover have "sorted_wrt (<) (map pos_of (filter (\<lambda>e. sign_of e = - 1) S))"
    using inv by (simp add: script_inv_def)
  ultimately have 1: "sorted_wrt (\<lambda>p q. q < p) (map fst (deleted (list_collect S)))"
    by (simp add: sorted_wrt_rev)
  have 2: "\<exists>delta. fst (list_diff f mk X Y) = Dict delta
         \<and> map_of delta (Sym Delete) = Some (List (map (\<lambda>(pos, value). IntV (int pos)) (deleted (list_collect S))))"
    if "snd (list_diff f mk X Y) \<noteq> 0" "snd (list_diff f mk X Y) \<noteq> 1" "deleted (list_collect S) \<noteq> []"
  proof -
    have s: "list_similarity X (list_collect S) \<noteq> 0" "list_similarity X (list_collect S) \<noteq> 1"
      using that by (simp_all add: list_diff_def Let_def S_def)
    from emit_list_diff_partial [OF s]
    obtain delta where "emit_list_diff (mk X) (mk Y) (list_similarity X (list_collect S))
        (inserted (list_collect S)) (changed (list_collect S)) (deleted (list_collect S)) = Dict delta"
      "deleted (list_collect S) \<noteq> [] \<longrightarrow> map_of delta (Sym Delete)
         = Some (List (map (\<lambda>(pos, value). IntV (int pos)) (deleted (list_collect S))))"
      by blast
    then show ?thesis using that(3) by (simp add: list_diff_def Let_def S_def)
  qed
  show ?thesis using 1 2 unfolding S_def by blast
qed


subsection \<open>Worked sequence diffs\<close>

lemma fadd_small [simp]: "fadd 0 0 = 0" "fadd 0 (1 / 2) = 1 / 2" "fadd 0 1 = 1" "fadd 1 1 = 2" "fadd 1 0 = 1"
  "fadd (1/2) 0 = 1/2" "fadd 2 0 = 2"
  using fl_of_nat [of 2] by (simp_all add: fadd_def)

lemma table1:
  assumes "f x0 y0 = (v0, 0)" "f x0 y1 = (d, 1 / 2)"
  shows "lcs_table f [x0] [y0, y1] = [[0, 0, 0], [0, 0, 1 / 2]]"
  by (simp add: lcs_table_def Let_def assms)

lemma script_nil: "list_diff_0 f C X Y 0 0 [] = []"
  by (simp add: list_diff_0.simps)

lemma script1:
  assumes "f x0 y0 = (v0, 0)" "f x0 y1 = (d, 1 / 2)"
  shows "list_diff_script f [x0] [y0, y1] = [(1, y0, 0, 0), (0, d, 1, 1 / 2)]"
proof -
  let ?C = "[[0, 0, 0], [0, 0, 1 / 2]] :: rat list list"
  have m: "is_match f ?C [x0] [y0, y1] 1 2" by (simp add: is_match_def assms)
  have i: "is_insert f ?C [x0] [y0, y1] 0 1" by (simp add: is_insert_def is_match_def)
  have t: "lcs_table f [x0] [y0, y1] = ?C" using assms by (rule table1)
  show ?thesis
    unfolding list_diff_script_def t
    using script_match [OF m] script_insert [OF i] by (simp add: script_nil assms numeral_2_eq_2)
qed

lemma nested_example_generic:
  assumes "f x0 y0 = (v0, 0)" "f x0 y1 = (d, 1 / 2)"
  shows "list_diff f List [x0] [y0, y1]
     = (Dict [(IntV 1, d), (Sym Insert, List [Tuple [IntV 0, y0]])], 1 / 4)"
proof -
  have "fl (1 / 4) = 1 / 4" using fl_exact [of 1 "- 2"] by (simp add: pow2_def)
  then show ?thesis
    unfolding list_diff_def script1 [where f = f, OF assms]
    using fl_of_nat [of 2]
    by (simp add: list_collect_def list_step_def list_similarity_def emit_list_diff_def
        float_of_nat_def fdiv_def)
qed

lemma table2:
  assumes "f x0 y0 = (Dict [], 1)" "f x1 y0 = (v, 0)"
  shows "lcs_table f [x0, x1] [y0] = [[0, 0], [0, 1], [0, 1]]"
  by (simp add: lcs_table_def Let_def assms)

lemma script2:
  assumes "f x0 y0 = (Dict [], 1)" "f x1 y0 = (v, 0)"
  shows "list_diff_script f [x0, x1] [y0] = [(0, Dict [], 0, 1), (- 1, x1, 1, 0)]"
proof -
  let ?C = "[[0, 0], [0, 1], [0, 1]] :: rat list list"
  have d: "is_delete f ?C [x0, x1] [y0] 2 1"
    by (simp add: is_delete_def is_insert_def is_match_def assms)
  have m: "is_match f ?C [x0, x1] [y0] 1 1" by (simp add: is_match_def assms)
  have t: "lcs_table f [x0, x1] [y0] = ?C" using assms by (rule table2)
  show ?thesis
    unfolding list_diff_script_def t
    using script_delete [OF d] script_match [OF m] by (simp add: script_nil assms numeral_2_eq_2)
qed

lemma one_deleted_generic:
  assumes "f x0 y0 = (Dict [], 1)" "f x1 y0 = (v, 0)"
  shows "list_diff f List [x0, x1] [y0] = (Dict [(Sym Delete, List [IntV 1])], 1 / 2)"
  unfolding list_diff_def script2 [where f = f, OF assms]
  using fl_of_nat [of 2]
  by (simp add: list_collect_def list_step_def list_similarity_def emit_list_diff_def
      float_of_nat_def fdiv_def)

lemma table3:
  assumes "f x0 y0 = (v0, 0)" "f x1 y0 = (v1, 0)" "f x2 y0 = (Dict [], 1)"
  shows "lcs_table f [x0, x1, x2] [y0] = [[0, 0], [0, 0], [0, 0], [0, 1]]"
  by (simp add: lcs_table_def Let_def assms)

lemma script3:
  assumes "f x0 y0 = (v0, 0)" "f x1 y0 = (v1, 0)" "f x2 y0 = (Dict [], 1)"
  shows "list_diff_script f [x0, x1, x2] [y0] = [(- 1, x0, 0, 0), (- 1, x1, 1, 0), (0, Dict [], 0, 1)]"
proof -
  let ?C = "[[0, 0], [0, 0], [0, 0], [0, 1]] :: rat list list"
  have m: "is_match f ?C [x0, x1, x2] [y0] 3 1" by (simp add: is_match_def assms)
  have d2: "is_delete f ?C [x0, x1, x2] [y0] 2 0"
    by (simp add: is_delete_def is_insert_def is_match_def)
  have d1: "is_delete f ?C [x0, x1, x2] [y0] 1 0"
    by (simp add: is_delete_def is_insert_def is_match_def)
  have t: "lcs_table f [x0, x1, x2] [y0] = ?C" using assms by (rule table3)
  show ?thesis
    unfolding list_diff_script_def t
    using script_match [OF m] script_delete [OF d2] script_delete [OF d1]
    by (simp add: script_nil assms numeral_2_eq_2 numeral_3_eq_3)
qed

lemma fl_third: "fl (1 / 3) = 6004799503160661 / 18014398509481984"
  by code_simp

lemma two_deleted_generic:
  assumes "f x0 y0 = (v0, 0)" "f x1 y0 = (v1, 0)" "f x2 y0 = (Dict [], 1)"
  shows "list_diff f List [x0, x1, x2] [y0]
      = (Dict [(Sym Delete, List [IntV 1, IntV 0])], 6004799503160661 / 18014398509481984)"
  unfolding list_diff_def script3 [where f = f, OF assms]
  using fl_of_nat [of 3] fl_third
  by (simp add: list_collect_def list_step_def list_similarity_def emit_list_diff_def
      float_of_nat_def fdiv_def)

lemma obj_diff_scalars:
  "obj_diff (IntV i) (IntV j) = (if i \<noteq> j then (IntV j, 0) else (Dict [], 1))"
  "obj_diff (List xs) (IntV j) = (IntV j, 0)"
  by (simp_all add: obj_diff.simps value_diff_def emit_value_diff_def replace_or_value_def)

lemma obj_diff_List: "obj_diff (List X) (List Y) = list_diff obj_diff List X Y"
  by (simp add: obj_diff.simps)

lemma inner_example:
  "obj_diff (List [IntV 1, IntV 2]) (List [IntV 1]) = (Dict [(Sym Delete, List [IntV 1])], 1 / 2)"
  unfolding obj_diff_List by (rule one_deleted_generic) (simp_all add: obj_diff_scalars)

lemma nested_example:
  "obj_diff (List [List [IntV 1, IntV 2]]) (List [IntV 5, List [IntV 1]])
     = (Dict [(IntV 1, Dict [(Sym Delete, List [IntV 1])]), (Sym Insert, List [Tuple [IntV 0, IntV 5]])], 1 / 4)"
  unfolding obj_diff_List
  by (rule nested_example_generic) (simp_all add: obj_diff_scalars inner_example)

lemma nested_example_script:
  "list_diff_script obj_diff [List [IntV 1, IntV 2]] [IntV 5, List [IntV 1]]
     = [(1, IntV 5, 0, 0), (0, Dict [(Sym Delete, List [IntV 1])], 1, 1 / 2)]"
  by (rule script1) (simp_all add: obj_diff_scalars inner_example)

lemma delete_example_script:
  "list_diff_script obj_diff [IntV 1, IntV 2, IntV 3] [IntV 3]
     = [(- 1, IntV 1, 0, 0), (- 1, IntV 2, 1, 0), (0, Dict [], 0, 1)]"
  by (rule script3) (simp_all add: obj_diff_scalars)

lemma delete_example:
  "obj_diff (List [IntV 1, IntV 2, IntV 3]) (List [IntV 3])
     = (Dict [(Sym Delete, List [IntV 1, IntV 0])], 6004799503160661 / 18014398509481984)"
  unfolding obj_diff_List by (rule two_deleted_generic) (simp_all add: obj_diff_scalars)

theorem changed_under_target_position_witness:
  "(0, Dict [(Sym Delete, List [IntV 1])], 1, 1 / 2)
      \<in> set (list_diff_script obj_diff [List [IntV 1, IntV 2]] [IntV 5, List [IntV 1]])
   \<and> map_of (changed (list_collect (list_diff_script obj_diff [List [IntV 1, IntV 2]] [IntV 5, List [IntV 1]])))
        (IntV 1) = Some (Dict [(Sym Delete, List [IntV 1])])
   \<and> (Dict [(Sym Delete, List [IntV 1])], 1 / 2) = obj_diff ([List [IntV 1, IntV 2]] ! 0) ([IntV 5, List [IntV 1]] ! 1)"
proof -
  have m: "(0, Dict [(Sym Delete, List [IntV 1])], 1, 1 / 2)
      \<in> set (list_diff_script obj_diff [List [IntV 1, IntV 2]] [IntV 5, List [IntV 1]])"
    by (simp add: nested_example_script)
  have s: "(1 / 2 :: rat) < 1" by simp
  from changed_under_target_position [OF m s, of List]
  show ?thesis using m by (simp add: inner_example)
qed

text \<open>
  C5 as stated fails: in the diff of \<^verbatim>\<open>[[1, 2]]\<close> against \<^verbatim>\<open>[5, [1]]\<close> the element
  \<^verbatim>\<open>X[0] = [1, 2]\<close> is matched with \<^verbatim>\<open>Y[1] = [1]\<close>, and their nested delta stands under the
  key 1, the position in \<open>Y\<close>, not under the source position 0.
\<close>

theorem change_of_first_element_under_key_1:
  "diff (List [List [IntV 1, IntV 2]]) (List [IntV 5, List [IntV 1]])
     = Dict [(IntV 1, Dict [(Sym Delete, List [IntV 1])]), (Sym Insert, List [Tuple [IntV 0, IntV 5]])]
   \<and> obj_diff ([List [IntV 1, IntV 2]] ! 0) ([IntV 5, List [IntV 1]] ! 1)
       = (Dict [(Sym Delete, List [IntV 1])], 1 / 2)"
  by (simp add: diff_def nested_example inner_example)

theorem deleted_positions_descending_witness:
  "snd (list_diff obj_diff List [IntV 1, IntV 2, IntV 3] [IntV 3]) \<noteq> 0
   \<and> snd (list_diff obj_diff List [IntV 1, IntV 2, IntV 3] [IntV 3]) \<noteq> 1
   \<and> deleted (list_collect (list_diff_script obj_diff [IntV 1, IntV 2, IntV 3] [IntV 3]))
        = [(1, IntV 2), (0, IntV 1)]
   \<and> (\<exists>delta. fst (list_diff obj_diff List [IntV 1, IntV 2, IntV 3] [IntV 3]) = Dict delta
         \<and> map_of delta (Sym Delete) = Some (List [IntV 1, IntV 0]))"
proof -
  have d: "deleted (list_collect (list_diff_script obj_diff [IntV 1, IntV 2, IntV 3] [IntV 3]))
        = [(1, IntV 2), (0, IntV 1)]"
    by (simp add: delete_example_script list_collect_def list_step_def)
  have s: "snd (list_diff obj_diff List [IntV 1, IntV 2, IntV 3] [IntV 3]) \<noteq> 0"
      "snd (list_diff obj_diff List [IntV 1, IntV 2, IntV 3] [IntV 3]) \<noteq> 1"
    using delete_example by (simp_all add: obj_diff_List)
  from deleted_positions_descending [of obj_diff "[IntV 1, IntV 2, IntV 3]" "[IntV 3]" List]
  show ?thesis using s d by simp
qed

text \<open>
  C6 as stated fails: the diff of \<^verbatim>\<open>[1, 2, 3]\<close> against \<^verbatim>\<open>[3]\<close> deletes the positions 0 and
  1 and lists them as \<^verbatim>\<open>[1, 0]\<close>.
\<close>

theorem deleted_positions_not_ascending:
  "diff (List [IntV 1, IntV 2, IntV 3]) (List [IntV 3]) = Dict [(Sym Delete, List [IntV 1, IntV 0])]
   \<and> \<not> sorted (map fst (deleted (list_collect (list_diff_script obj_diff [IntV 1, IntV 2, IntV 3] [IntV 3]))))"
  by (simp add: diff_def delete_example delete_example_script list_collect_def list_step_def)


subsection \<open>The map differ\<close>

lemma dict_step_fields:
  "nmatched (dict_step f b kv acc)
     = (if is_Sym (dict_get_missing b (fst kv)) then nmatched acc else nmatched acc + 1)"
  "nremoved (dict_step f b kv acc)
     = (if dict_get_missing b (fst kv) = Sym Missing then nremoved acc + 1 else nremoved acc)"
  "smatched (dict_step f b kv acc)
     = (if is_Sym (dict_get_missing b (fst kv)) then smatched acc
        else fadd (smatched acc) (fadd (1 / 2) (fmul (1 / 2) (snd (f (snd kv) (dict_get_missing b (fst kv)))))))"
  by (cases kv; cases "f (snd kv) (dict_get_missing b (fst kv))";
      auto simp: dict_step_def Let_def)+

lemma fold_dict_step_fields:
  "nmatched (fold (dict_step f b) a acc)
     = nmatched acc + length (filter (\<lambda>kv. \<not> is_Sym (dict_get_missing b (fst kv))) a)"
  "nremoved (fold (dict_step f b) a acc)
     = nremoved acc + length (filter (\<lambda>kv. dict_get_missing b (fst kv) = Sym Missing) a)"
  "smatched (fold (dict_step f b) a acc)
     = foldl fadd (smatched acc)
         (map (\<lambda>kv. fadd (1 / 2) (fmul (1 / 2) (snd (f (snd kv) (dict_get_missing b (fst kv))))))
            (filter (\<lambda>kv. \<not> is_Sym (dict_get_missing b (fst kv))) a))"
  by (induction a arbitrary: acc; simp add: dict_step_fields)+

lemma no_marker_values:
  assumes "\<forall>w \<in> snd ` set b. \<not> is_Sym w"
  shows "is_Sym (dict_get_missing b k) \<longleftrightarrow> map_of b k = None"
    "dict_get_missing b k = Sym Missing \<longleftrightarrow> map_of b k = None"
proof -
  have "\<not> is_Sym w" if "map_of b k = Some w" for w
    using assms map_of_SomeD [OF that] by force
  then show "is_Sym (dict_get_missing b k) \<longleftrightarrow> map_of b k = None"
    by (auto simp: dict_get_missing_def split: option.splits)
  then show "dict_get_missing b k = Sym Missing \<longleftrightarrow> map_of b k = None"
    by (auto simp: dict_get_missing_def split: option.splits)
qed

text \<open>
  C8. For two maps \<open>a\<close> and \<open>b\<close> (no value of \<open>b\<close> a marker, as for every value of a user) each
  key present in both adds \<open>0.5 + 0.5 * s\<close> to the matched weight, \<open>s\<close> being the similarity of
  its two values, and the similarity of the maps is the matched weight divided by the
  number of removed, matched and added keys, or \<open>1.0\<close> when there is no key at all; the
  arithmetic is that of floats, summing in the order of \<open>a\<close>. The witness is the diff of
  \<^verbatim>\<open>{"a": 1, "b": 2}\<close> against \<^verbatim>\<open>{"a": 1, "b": 3}\<close>: the delta \<^verbatim>\<open>{"b": 3}\<close>, similarity 0.75.
\<close>

theorem dict_similarity_formula:
  assumes "\<forall>w \<in> snd ` set b. \<not> is_Sym w"
  shows "similarity (Dict a) (Dict b)
     = (if key_count a b = 0 then 1
        else fdiv (matched_weight obj_diff a b) (float_of_nat (key_count a b)))"
proof -
  let ?acc = "fold (dict_step obj_diff b) a
      \<lparr>removed = [], nremoved = 0, nmatched = 0, smatched = 0, dchanged = []\<rparr>"
  have M: "(\<lambda>kv. \<not> is_Sym (dict_get_missing b (fst kv))) = (\<lambda>(k, v). map_of b k \<noteq> None)"
    by (auto simp: no_marker_values(1) [OF assms])
  have R: "(\<lambda>kv. dict_get_missing b (fst kv) = Sym Missing) = (\<lambda>(k, v). map_of b k = None)"
    by (auto simp: no_marker_values(2) [OF assms])
  have W: "(\<lambda>kv. fadd (1 / 2) (fmul (1 / 2) (snd (obj_diff (snd kv) (dict_get_missing b (fst kv))))))
      = (\<lambda>(k, v). fadd (1 / 2) (fmul (1 / 2) (snd (obj_diff v (dict_get_missing b k)))))"
    by auto
  have n: "nremoved ?acc + nmatched ?acc + length (dict_added a b) = key_count a b"
    unfolding fold_dict_step_fields M R by (simp add: key_count_def keys_in_both_def dict_added_def)
  have s: "smatched ?acc = matched_weight obj_diff a b"
    unfolding fold_dict_step_fields M W by (simp add: matched_weight_def keys_in_both_def)
  have "similarity (Dict a) (Dict b) = snd (dict_diff obj_diff a b)"
    by (simp add: similarity_def obj_diff.simps)
  also have "\<dots> = (if key_count a b = 0 then 1
        else fdiv (matched_weight obj_diff a b) (float_of_nat (key_count a b)))"
    unfolding dict_diff_def Let_def n s by simp
  finally show ?thesis .
qed

lemma dict_example:
  "obj_diff (Dict [(Str ''a'', IntV 1), (Str ''b'', IntV 2)]) (Dict [(Str ''a'', IntV 1), (Str ''b'', IntV 3)])
     = (Dict [(Str ''b'', IntV 3)], 3 / 4)"
  by code_simp

theorem dict_similarity_formula_witness:
  "diff (Dict [(Str ''a'', IntV 1), (Str ''b'', IntV 2)]) (Dict [(Str ''a'', IntV 1), (Str ''b'', IntV 3)])
     = Dict [(Str ''b'', IntV 3)]
   \<and> similarity (Dict [(Str ''a'', IntV 1), (Str ''b'', IntV 2)]) (Dict [(Str ''a'', IntV 1), (Str ''b'', IntV 3)])
     = 3 / 4
   \<and> key_count [(Str ''a'', IntV 1), (Str ''b'', IntV 2)] [(Str ''a'', IntV 1), (Str ''b'', IntV 3)] = 2
   \<and> fdiv (matched_weight obj_diff [(Str ''a'', IntV 1), (Str ''b'', IntV 2)] [(Str ''a'', IntV 1), (Str ''b'', IntV 3)])
        (float_of_nat 2) = 3 / 4"
proof -
  have h: "\<forall>w \<in> snd ` set [(Str ''a'', IntV 1), (Str ''b'', IntV 3)]. \<not> is_Sym w" by simp
  have k: "key_count [(Str ''a'', IntV 1), (Str ''b'', IntV 2)] [(Str ''a'', IntV 1), (Str ''b'', IntV 3)] = 2"
    by (simp add: key_count_def keys_in_both_def)
  from dict_similarity_formula [OF h, of "[(Str ''a'', IntV 1), (Str ''b'', IntV 2)]"]
  show ?thesis unfolding k using dict_example by (simp add: diff_def similarity_def)
qed


subsection \<open>The set differ\<close>

lemma greedy_matches_empty_pool [simp]:
  "r2 = [] \<or> a2 = [] \<Longrightarrow> greedy_matches ranking r2 a2 = []"
  by (cases ranking) auto

lemma set_greedy_refines:
  "r2 \<noteq> [] \<and> a2 \<noteq> [] \<or> ranking = [] \<Longrightarrow>
     snd (snd (set_greedy ranking r2 a2 sc nc))
       = (foldl fadd sc (map fst (greedy_matches ranking r2 a2)),
          nc + length (greedy_matches ranking r2 a2))"
proof (induction ranking arbitrary: r2 a2 sc nc)
  case Nil
  then show ?case by simp
next
  case (Cons t ranking)
  obtain s x y where t: "t = (s, x, y)" by (cases t)
  from Cons.prems have ne: "r2 \<noteq> []" "a2 \<noteq> []" by simp_all
  show ?case
  proof (cases "x \<in> set r2 \<and> y \<in> set a2")
    case True
    show ?thesis
    proof (cases "removeAll x r2 = [] \<or> removeAll y a2 = []")
      case T: True
      then show ?thesis using True ne by (auto simp: t)
    next
      case False
      then have "removeAll x r2 \<noteq> [] \<and> removeAll y a2 \<noteq> [] \<or> ranking = []" by simp
      from Cons.IH [OF this, of "fadd sc s" "nc + 1"]
      show ?thesis using True ne False by (simp add: t)
    qed
  next
    case False
    have "r2 \<noteq> [] \<and> a2 \<noteq> [] \<or> ranking = []" using ne by simp
    from Cons.IH [OF this, of sc nc]
    show ?thesis using False ne by (auto simp: t)
  qed
qed

lemma concat_map_Nil: "concat (map (\<lambda>x. []) xs) = []"
  by (induction xs) simp_all

lemma ranking_empty:
  "rmv = [] \<or> adds = [] \<Longrightarrow> set_ranking f rmv adds = []"
  by (auto simp: set_ranking_def concat_map_Nil)

lemma pair_scores_enum:
  "pair_scores f rmv adds = concat (map (\<lambda>x. map (\<lambda>y. (snd (f x y), x, y)) adds) rmv)"
  unfolding pair_scores_def by (induction rmv) (simp_all add: comp_def)

lemma ranking_unique:
  assumes "is_ranking f rmv adds rk"
  shows "set_ranking f rmv adds = rk"
proof -
  let ?ps = "pair_scores f rmv adds"
  have m: "mset rk = mset ?ps" using assms by (simp add: is_ranking_def)
  have st: "filter (\<lambda>u. - fst t = - fst u) rk = filter (\<lambda>u. - fst t = - fst u) ?ps"
    if "t \<in> set rk" for t
  proof -
    have "(\<lambda>u :: rat \<times> val \<times> val. - fst t = - fst u) = (\<lambda>u. fst u = fst t)" by auto
    then show ?thesis using assms that by (simp add: is_ranking_def)
  qed
  have "sorted_wrt (\<lambda>t u. fst u \<le> fst t) rk" using assms by (simp add: is_ranking_def)
  then have so: "sorted (map (\<lambda>t. - fst t) rk)"
    by (simp add: sorted_wrt_map)
  have "sort_key (\<lambda>t. - fst t) ?ps = rk"
    using m st so by (rule properties_for_sort_key)
  then show ?thesis by (simp add: set_ranking_def pair_scores_enum)
qed

lemma set_diff_ordered_score:
  assumes "length rmv \<le> length a" "rmv \<noteq> [] \<or> adds \<noteq> []"
  shows "snd (set_diff_ordered f a b rmv adds)
     = fdiv (foldl fadd (float_of_nat (length a - length rmv))
               (map fst (greedy_matches (set_ranking f rmv adds) rmv adds)))
            (float_of_nat (length a + length adds))"
proof -
  define ranking where "ranking = set_ranking f rmv adds"
  define n0 where "n0 = length a - length rmv"
  have pre: "rmv \<noteq> [] \<and> adds \<noteq> [] \<or> ranking = []"
    unfolding ranking_def using ranking_empty [of rmv adds f] by blast
  obtain r2 a2 sc nc where g: "set_greedy ranking rmv adds (float_of_nat n0) n0 = (r2, a2, sc, nc)"
    by (metis prod_cases4)
  from set_greedy_refines [OF pre, of "float_of_nat n0" n0]
  have sc: "sc = foldl fadd (float_of_nat n0) (map fst (greedy_matches ranking rmv adds))"
    unfolding g by simp
  have nz: "length a + length adds \<noteq> 0"
    using assms by auto
  have "snd (set_diff_ordered f a b rmv adds) = fdiv sc (float_of_nat (length a + length adds))"
    unfolding set_diff_ordered_def Let_def ranking_def [symmetric] n0_def [symmetric] g
    using assms nz by auto
  then show ?thesis unfolding sc ranking_def n0_def .
qed

text \<open>
  C7. Let \<open>a\<close> and \<open>b\<close> be two sets, \<open>rmv\<close> the elements of \<open>a - b\<close> and \<open>adds\<close> the
  elements of \<open>b - a\<close>, each listed in the order Python iterates over the difference,
  whatever that order is, and not both empty. Let \<open>rk\<close> be the ranking of the pairs: all
  pairs of an element of \<open>rmv\<close> and one of \<open>adds\<close>, by descending similarity, pairs of
  equal similarity in the order of their enumeration. Then the similarity that
  \<^verbatim>\<open>_set_diff\<close> returns is \<open>(n_common + s_common_greedy) / (|a| + |added|)\<close>: the
  scores of the greedily matched pairs are added, in the order of the ranking, to the
  float of \<open>n_common = |a| - |removed|\<close>, and the sum is divided by \<open>|a| + |added|\<close>, in
  float arithmetic. The witness is the diff of \<^verbatim>\<open>{(1, 2), (1, 3)}\<close> against
  \<^verbatim>\<open>{(1,), (2,)}\<close>, where three pairs have the score 0.5: iterating over \<open>a - b\<close> as
  \<^verbatim>\<open>(1, 2), (1, 3)\<close> the matching passes over two pairs and the similarity is 0.125, as
  \<^verbatim>\<open>(1, 3), (1, 2)\<close> it is 0.25; and the diff of \<^verbatim>\<open>{1, 2, 3}\<close> against \<^verbatim>\<open>{2, 3, 4}\<close>:
  discard \<^verbatim>\<open>{1}\<close>, add \<^verbatim>\<open>{4}\<close>, similarity 0.5.
\<close>

theorem set_similarity_formula:
  assumes "distinct rmv" "set rmv = set a - set b"
      and "distinct adds" "set adds = set b - set a"
      and "rmv \<noteq> [] \<or> adds \<noteq> []"
      and "is_ranking obj_diff rmv adds rk"
  shows "snd (set_diff_ordered obj_diff a b rmv adds)
     = fdiv (foldl fadd (float_of_nat (length a - length rmv))
               (map fst (greedy_matches rk rmv adds)))
            (float_of_nat (length a + length adds))"
proof -
  have "length rmv = card (set rmv)" using assms(1) by (simp add: distinct_card)
  also have "\<dots> \<le> card (set a)" unfolding assms(2) by (intro card_mono) auto
  also have "\<dots> \<le> length a" by (rule card_length)
  finally have "length rmv \<le> length a" .
  from set_diff_ordered_score [OF this assms(5), of obj_diff b]
  show ?thesis unfolding ranking_unique [OF assms(6)] .
qed


lemma table_first_deleted:
  assumes "f x0 y0 = (v, 0)" "f x1 y0 = (Dict [], 1)"
  shows "lcs_table f [x0, x1] [y0] = [[0, 0], [0, 0], [0, 1]]"
  by (simp add: lcs_table_def Let_def assms)

lemma script_first_deleted:
  assumes "f x0 y0 = (v, 0)" "f x1 y0 = (Dict [], 1)"
  shows "list_diff_script f [x0, x1] [y0] = [(- 1, x0, 0, 0), (0, Dict [], 0, 1)]"
proof -
  let ?C = "[[0, 0], [0, 0], [0, 1]] :: rat list list"
  have m: "is_match f ?C [x0, x1] [y0] 2 1" by (simp add: is_match_def assms)
  have d: "is_delete f ?C [x0, x1] [y0] 1 0"
    by (simp add: is_delete_def is_insert_def is_match_def)
  have t: "lcs_table f [x0, x1] [y0] = ?C" using assms by (rule table_first_deleted)
  show ?thesis
    unfolding list_diff_script_def t
    using script_match [OF m] script_delete [OF d] by (simp add: script_nil assms numeral_2_eq_2)
qed

lemma score_first_deleted:
  assumes "f x0 y0 = (v, 0)" "f x1 y0 = (Dict [], 1)"
  shows "snd (list_diff f mk [x0, x1] [y0]) = 1 / 2"
  unfolding list_diff_def script_first_deleted [where f = f, OF assms]
  using fl_of_nat [of 2]
  by (simp add: list_collect_def list_step_def list_similarity_def float_of_nat_def fdiv_def Let_def)

lemma score_last_deleted:
  assumes "f x0 y0 = (Dict [], 1)" "f x1 y0 = (v, 0)"
  shows "snd (list_diff f mk [x0, x1] [y0]) = 1 / 2"
  unfolding list_diff_def script2 [where f = f, OF assms]
  using fl_of_nat [of 2]
  by (simp add: list_collect_def list_step_def list_similarity_def float_of_nat_def fdiv_def Let_def)

lemma table_unrelated:
  assumes "f x0 y0 = (v0, 0)" "f x1 y0 = (v1, 0)"
  shows "lcs_table f [x0, x1] [y0] = [[0, 0], [0, 0], [0, 0]]"
  by (simp add: lcs_table_def Let_def assms)

lemma script_unrelated:
  assumes "f x0 y0 = (v0, 0)" "f x1 y0 = (v1, 0)"
  shows "list_diff_script f [x0, x1] [y0] = [(- 1, x0, 0, 0), (- 1, x1, 1, 0), (1, y0, 0, 0)]"
proof -
  let ?C = "[[0, 0], [0, 0], [0, 0]] :: rat list list"
  have i: "is_insert f ?C [x0, x1] [y0] 2 1" by (simp add: is_insert_def is_match_def assms)
  have d2: "is_delete f ?C [x0, x1] [y0] 2 0"
    by (simp add: is_delete_def is_insert_def is_match_def)
  have d1: "is_delete f ?C [x0, x1] [y0] 1 0"
    by (simp add: is_delete_def is_insert_def is_match_def)
  have t: "lcs_table f [x0, x1] [y0] = ?C" using assms by (rule table_unrelated)
  show ?thesis
    unfolding list_diff_script_def t
    using script_insert [OF i] script_delete [OF d2] script_delete [OF d1]
    by (simp add: script_nil numeral_2_eq_2)
qed

lemma score_unrelated:
  assumes "f x0 y0 = (v0, 0)" "f x1 y0 = (v1, 0)"
  shows "snd (list_diff f mk [x0, x1] [y0]) = 0"
  unfolding list_diff_def script_unrelated [where f = f, OF assms]
  by (simp add: list_collect_def list_step_def list_similarity_def fdiv_def Let_def)

lemma pair_example_scores:
  "snd (obj_diff (Tuple [IntV 1, IntV 2]) (Tuple [IntV 1])) = 1 / 2"
  "snd (obj_diff (Tuple [IntV 1, IntV 2]) (Tuple [IntV 2])) = 1 / 2"
  "snd (obj_diff (Tuple [IntV 1, IntV 3]) (Tuple [IntV 1])) = 1 / 2"
  "snd (obj_diff (Tuple [IntV 1, IntV 3]) (Tuple [IntV 2])) = 0"
proof -
  have t: "obj_diff (Tuple X) (Tuple Y) = list_diff obj_diff Tuple X Y" for X Y
    by (simp add: obj_diff.simps)
  show "snd (obj_diff (Tuple [IntV 1, IntV 2]) (Tuple [IntV 1])) = 1 / 2"
    unfolding t by (rule score_last_deleted) (simp_all add: obj_diff_scalars)
  show "snd (obj_diff (Tuple [IntV 1, IntV 2]) (Tuple [IntV 2])) = 1 / 2"
    unfolding t by (rule score_first_deleted) (simp_all add: obj_diff_scalars)
  show "snd (obj_diff (Tuple [IntV 1, IntV 3]) (Tuple [IntV 1])) = 1 / 2"
    unfolding t by (rule score_last_deleted) (simp_all add: obj_diff_scalars)
  show "snd (obj_diff (Tuple [IntV 1, IntV 3]) (Tuple [IntV 2])) = 0"
    unfolding t by (rule score_unrelated) (simp_all add: obj_diff_scalars)
qed

lemma fl_quarter: "fl (1 / 4) = 1 / 4"
  using fl_exact [of 1 "- 2"] by (simp add: pow2_def)

lemma set_example:
  "obj_diff (SetV [IntV 1, IntV 2, IntV 3]) (SetV [IntV 2, IntV 3, IntV 4])
     = (Dict [(Sym Discard, SetV [IntV 1]), (Sym Add, SetV [IntV 4])], 1 / 2)"
  by code_simp

lemma fl_eighth: "fl (1 / 8) = 1 / 8"
  using fl_exact [of 1 "- 3"] by (simp add: pow2_def)

theorem set_similarity_formula_witness:
  "is_ranking obj_diff [Tuple [IntV 1, IntV 2], Tuple [IntV 1, IntV 3]] [Tuple [IntV 1], Tuple [IntV 2]]
      [(1 / 2, Tuple [IntV 1, IntV 2], Tuple [IntV 1]), (1 / 2, Tuple [IntV 1, IntV 2], Tuple [IntV 2]),
       (1 / 2, Tuple [IntV 1, IntV 3], Tuple [IntV 1]), (0, Tuple [IntV 1, IntV 3], Tuple [IntV 2])]
   \<and> snd (set_diff_ordered obj_diff [Tuple [IntV 1, IntV 2], Tuple [IntV 1, IntV 3]] [Tuple [IntV 1], Tuple [IntV 2]]
             [Tuple [IntV 1, IntV 2], Tuple [IntV 1, IntV 3]] [Tuple [IntV 1], Tuple [IntV 2]]) = 1 / 8
   \<and> is_ranking obj_diff [Tuple [IntV 1, IntV 3], Tuple [IntV 1, IntV 2]] [Tuple [IntV 1], Tuple [IntV 2]]
      [(1 / 2, Tuple [IntV 1, IntV 3], Tuple [IntV 1]), (1 / 2, Tuple [IntV 1, IntV 2], Tuple [IntV 1]),
       (1 / 2, Tuple [IntV 1, IntV 2], Tuple [IntV 2]), (0, Tuple [IntV 1, IntV 3], Tuple [IntV 2])]
   \<and> snd (set_diff_ordered obj_diff [Tuple [IntV 1, IntV 2], Tuple [IntV 1, IntV 3]] [Tuple [IntV 1], Tuple [IntV 2]]
             [Tuple [IntV 1, IntV 3], Tuple [IntV 1, IntV 2]] [Tuple [IntV 1], Tuple [IntV 2]]) = 1 / 4
   \<and> is_ranking obj_diff [IntV 1] [IntV 4] [(0, IntV 1, IntV 4)]
   \<and> snd (set_diff_ordered obj_diff [IntV 1, IntV 2, IntV 3] [IntV 2, IntV 3, IntV 4] [IntV 1] [IntV 4])
       = 1 / 2
   \<and> diff (SetV [IntV 1, IntV 2, IntV 3]) (SetV [IntV 2, IntV 3, IntV 4])
       = Dict [(Sym Discard, SetV [IntV 1]), (Sym Add, SetV [IntV 4])]
   \<and> similarity (SetV [IntV 1, IntV 2, IntV 3]) (SetV [IntV 2, IntV 3, IntV 4]) = 1 / 2"
proof -
  let ?x1 = "Tuple [IntV 1, IntV 2]" and ?x2 = "Tuple [IntV 1, IntV 3]"
  let ?y1 = "Tuple [IntV 1]" and ?y2 = "Tuple [IntV 2]"
  let ?rk1 = "[(1 / 2, ?x1, ?y1), (1 / 2, ?x1, ?y2), (1 / 2, ?x2, ?y1), (0, ?x2, ?y2)] :: (rat \<times> val \<times> val) list"
  let ?rk2 = "[(1 / 2, ?x2, ?y1), (1 / 2, ?x1, ?y1), (1 / 2, ?x1, ?y2), (0, ?x2, ?y2)] :: (rat \<times> val \<times> val) list"
  have r1: "is_ranking obj_diff [?x1, ?x2] [?y1, ?y2] ?rk1"
    by (simp add: is_ranking_def pair_scores_def pair_example_scores)
  have r2: "is_ranking obj_diff [?x2, ?x1] [?y1, ?y2] ?rk2"
    by (simp add: is_ranking_def pair_scores_def pair_example_scores)
  have g1: "greedy_matches ?rk1 [?x1, ?x2] [?y1, ?y2] = [(1 / 2, ?x1, ?y1), (0, ?x2, ?y2)]"
    by simp
  have g2: "greedy_matches ?rk2 [?x2, ?x1] [?y1, ?y2] = [(1 / 2, ?x2, ?y1), (1 / 2, ?x1, ?y2)]"
    by simp
  have r3: "is_ranking obj_diff [IntV 1] [IntV 4] [(0, IntV 1, IntV 4)]"
    by (simp add: is_ranking_def pair_scores_def obj_diff_scalars)
  have f2: "float_of_nat (Suc (Suc 0)) = 2" "float_of_nat (Suc (Suc (Suc (Suc 0)))) = 4"
      "float_of_nat 0 = 0"
    using fl_of_nat [of 2] fl_of_nat [of 4] by (simp_all add: float_of_nat_def)
  have d1: "distinct [?x1, ?x2]" "distinct [?x2, ?x1]" "distinct [?y1, ?y2]"
      "[?x1, ?x2] \<noteq> [] \<or> [?y1, ?y2] \<noteq> []" "[?x2, ?x1] \<noteq> [] \<or> [?y1, ?y2] \<noteq> []"
    by simp_all
  have e1: "set [?x1, ?x2] = set [?x1, ?x2] - set [?y1, ?y2]"
      "set [?x2, ?x1] = set [?x1, ?x2] - set [?y1, ?y2]"
      "set [?y1, ?y2] = set [?y1, ?y2] - set [?x1, ?x2]"
    by auto
  have s1: "snd (set_diff_ordered obj_diff [?x1, ?x2] [?y1, ?y2] [?x1, ?x2] [?y1, ?y2]) = 1 / 8"
    using set_similarity_formula [OF d1(1) e1(1) d1(3) e1(3) d1(4) r1]
    unfolding g1 by (simp add: f2 fdiv_def fl_eighth)
  have s2: "snd (set_diff_ordered obj_diff [?x1, ?x2] [?y1, ?y2] [?x2, ?x1] [?y1, ?y2]) = 1 / 4"
    using set_similarity_formula [OF d1(2) e1(2) d1(3) e1(3) d1(5) r2]
    unfolding g2 by (simp add: f2 fdiv_def fl_quarter fadd_def)
  have d3: "distinct [IntV 1]" "distinct [IntV 4]" "[IntV 1] \<noteq> [] \<or> [IntV 4] \<noteq> []"
    by simp_all
  have e3: "set [IntV 1] = set [IntV 1, IntV 2, IntV 3] - set [IntV 2, IntV 3, IntV 4]"
      "set [IntV 4] = set [IntV 2, IntV 3, IntV 4] - set [IntV 1, IntV 2, IntV 3]"
    by auto
  have s3: "snd (set_diff_ordered obj_diff [IntV 1, IntV 2, IntV 3] [IntV 2, IntV 3, IntV 4] [IntV 1] [IntV 4])
       = 1 / 2"
    using set_similarity_formula [OF d3(1) e3(1) d3(2) e3(2) d3(3) r3]
    by (simp add: f2 fdiv_def)
  show ?thesis using r1 s1 r2 s2 r3 s3 set_example by (simp add: diff_def similarity_def)
qed


subsection \<open>Marshalling\<close>

lemma symbol_map_single:
  "symbol_map [c] = map (\<lambda>s. (c # label s, s)) all_symbols"
  by (simp add: symbol_map_def all_symbols_def)

lemma symbol_map_lookup_label: "map_of (symbol_map [c]) (c # label s) = Some s"
  by (cases s) (simp_all add: symbol_map_single all_symbols_def)

lemma symbol_map_lookup_Some:
  "map_of (symbol_map [c]) x = Some s \<Longrightarrow> x = c # label s"
  by (auto simp: symbol_map_single all_symbols_def split: if_splits)

lemma label_not_safe: "safe_token c \<Longrightarrow> label s \<noteq> c # x"
  by (cases s) (auto simp: safe_token_def all_symbols_def)

lemma unescape_escape:
  assumes "safe_token c"
  shows "unescape [c] (escape [c] k) = k"
proof (cases k)
  case (Sym s)
  then show ?thesis by (simp add: symbol_map_lookup_label)
next
  case (Str x)
  show ?thesis
  proof (cases "startswith x [c]")
    case True
    then obtain y where y: "x = c # y" by (cases x) (auto simp: startswith_def)
    have "map_of (symbol_map [c]) (c # x) = None"
    proof (cases "map_of (symbol_map [c]) (c # x)")
      case (Some s)
      from symbol_map_lookup_Some [OF this] label_not_safe [OF assms, of s y] y
      show ?thesis by simp
    qed simp
    then show ?thesis using True by (simp add: Str startswith_def)
  next
    case False
    have "map_of (symbol_map [c]) x = None"
    proof (cases "map_of (symbol_map [c]) x")
      case (Some s)
      from symbol_map_lookup_Some [OF this] False show ?thesis by (simp add: startswith_def)
    qed simp
    then show ?thesis using False by (simp add: Str)
  qed
qed simp_all

lemma escape_inj: "safe_token c \<Longrightarrow> inj (escape [c])"
  by (rule inj_on_inverseI [where g = "unescape [c]"]) (rule unescape_escape)

lemma update_fresh: "k \<notin> fst ` set al \<Longrightarrow> AList.update k v al = al @ [(k, v)]"
  by (induction al) auto

lemma fold_update_distinct:
  "distinct (map fst (acc @ items)) \<Longrightarrow>
     fold (\<lambda>(k, v) d. AList.update k v d) items acc = acc @ items"
proof (induction items arbitrary: acc)
  case Nil
  then show ?case by simp
next
  case (Cons kv items)
  obtain k v where kv: "kv = (k, v)" by (cases kv)
  have "k \<notin> fst ` set acc" using Cons.prems by (auto simp: kv)
  then have u: "AList.update k v acc = acc @ [(k, v)]" by (rule update_fresh)
  have "distinct (map fst ((acc @ [(k, v)]) @ items))" using Cons.prems by (simp add: kv)
  from Cons.IH [OF this] show ?case by (simp add: kv u)
qed

lemma dict_of_items_distinct: "distinct (map fst items) \<Longrightarrow> dict_of_items items = items"
  unfolding dict_of_items_def using fold_update_distinct [of "[]" items] by simp

text \<open>
  With an escape token of one character that no marker name starts with, as the default
  \<^verbatim>\<open>$\<close>, \<^verbatim>\<open>unmarshal\<close> undoes \<^verbatim>\<open>marshal\<close>.
\<close>

lemma unmarshal_marshal:
  assumes "safe_token c"
  shows "dict_keys_distinct d \<Longrightarrow> unmarshal [c] (marshal [c] d) = d"
proof (induction d)
  case (Dict kvs)
  have dk: "distinct (map fst kvs)" using Dict.prems by simp
  have IH: "unmarshal [c] (marshal [c] v) = v" if "(k, v) \<in> set kvs" for k v
  proof -
    have "dict_keys_distinct v" using Dict.prems that by (force simp: list_all_iff)
    with Dict.IH that show ?thesis by force
  qed
  let ?m = "map (\<lambda>kv. (escape [c] (fst kv), marshal [c] (snd kv))) kvs"
  have "map fst ?m = map (escape [c]) (map fst kvs)" by simp
  moreover have "inj_on (escape [c]) (set (map fst kvs))"
    using escape_inj [OF assms] by (rule inj_on_subset) simp
  ultimately have "distinct (map fst ?m)"
    using dk by (simp only: distinct_map)
  then have m: "marshal [c] (Dict kvs) = Dict ?m" by (simp add: dict_of_items_distinct)
  have "map (\<lambda>kv. (unescape [c] (fst kv), unmarshal [c] (snd kv))) ?m = kvs"
    by (rule map_idI [THEN trans [rotated]])
       (auto simp: comp_def unescape_escape [OF assms] IH intro!: map_idI [symmetric] map_cong)
  then show ?case unfolding m using dk by (simp add: dict_of_items_distinct)
next
  case (List xs)
  then have "map (unmarshal [c]) (map (marshal [c]) xs) = xs"
    by (auto simp: list_all_iff intro!: map_idI)
  then show ?case by simp
next
  case (Tuple xs)
  then have "map (unmarshal [c]) (map (marshal [c]) xs) = xs"
    by (auto simp: list_all_iff intro!: map_idI)
  then show ?case by simp
next
  case (Str x)
  obtain y where y: "escape [c] (Str x) = Str y" by (cases "startswith x [c]") simp_all
  have "unmarshal [c] (marshal [c] (Str x)) = unescape [c] (escape [c] (Str x))"
    by (simp only: marshal.simps y unmarshal.simps)
  then show ?case by (simp only: unescape_escape [OF assms])
next
  case (Sym s)
  have y: "escape [c] (Sym s) = Str (c # label s)" by simp
  have "unmarshal [c] (marshal [c] (Sym s)) = unescape [c] (escape [c] (Sym s))"
    by (simp only: marshal.simps y unmarshal.simps)
  then show ?case by (simp only: unescape_escape [OF assms])
qed simp_all

lemma default_token_safe: "safe_token CHR ''$''"
  by (simp add: safe_token_def all_symbols_def)

lemma unmarshal_marshal_default_token:
  "dict_keys_distinct d \<Longrightarrow> unmarshal ''$'' (marshal ''$'' d) = d"
  using default_token_safe by (rule unmarshal_marshal)

lemma roundtrip_fails_marker_letter_token:
  "marshal ''a'' (Str ''add'') = Str ''aadd'' \<and> unmarshal ''a'' (Str ''aadd'') = Sym Add"
  by (simp add: startswith_def symbol_map_def all_symbols_def)

text \<open>
  C4 fails where the configured escape token has more than one character. With the token
  \<^verbatim>\<open>ab\<close> the string \<^verbatim>\<open>abc\<close> starts with the token and is marshalled to \<^verbatim>\<open>ababc\<close>;
  \<^verbatim>\<open>unmarshal\<close> finds no marker of that name, sees the token in front and returns
  \<^verbatim>\<open>x[1:]\<close>, the string without its first character, \<^verbatim>\<open>babc\<close>: it strips one character
  where the claim has it strip one occurrence of the token, and
  \<^verbatim>\<open>unmarshal(marshal(d))\<close> is not \<^verbatim>\<open>d\<close>.
\<close>

theorem roundtrip_fails_long_token:
  "marshal ''ab'' (Str ''abc'') = Str ''ababc''
   \<and> unmarshal ''ab'' (marshal ''ab'' (Str ''abc'')) = Str ''babc''
   \<and> unmarshal ''ab'' (marshal ''ab'' (Str ''abc'')) \<noteq> Str ''abc''"
  by (simp add: startswith_def symbol_map_def all_symbols_def)


subsection \<open>Scores lie between 0 and 1\<close>

lemma foldl_fadd_bound:
  assumes "\<forall>w \<in> set ws. 0 \<le> w \<and> w \<le> 1" "0 \<le> acc" "acc \<le> of_nat k" "k + length ws \<le> 2 ^ 53"
  shows "0 \<le> foldl fadd acc ws \<and> foldl fadd acc ws \<le> of_nat (k + length ws)"
  using assms
proof (induction ws arbitrary: acc k)
  case Nil
  then show ?case by simp
next
  case (Cons w ws)
  have w: "0 \<le> w" "w \<le> 1" using Cons.prems(1) by simp_all
  have 1: "0 \<le> fadd acc w" unfolding fadd_def using w Cons.prems(2) by (intro fl_nonneg) simp
  have "fl (acc + w) \<le> fl (of_nat (Suc k))"
    using w Cons.prems(2,3) by (intro fl_mono) simp_all
  moreover have "fl (of_nat (Suc k)) = (of_nat (Suc k) :: rat)"
    using Cons.prems(4) by (intro fl_of_nat) simp
  ultimately have 2: "fadd acc w \<le> of_nat (Suc k)" by (simp add: fadd_def)
  have 3: "Suc k + length ws \<le> 2 ^ 53" using Cons.prems(4) by simp
  have 4: "\<forall>w \<in> set ws. 0 \<le> w \<and> w \<le> 1" using Cons.prems(1) by simp
  from Cons.IH [OF 4 1 2 3] show ?case by simp
qed


lemma float_of_nat_exact: "n \<le> 2 ^ 53 \<Longrightarrow> float_of_nat n = of_nat n"
  by (simp add: float_of_nat_def fl_of_nat)

lemma fdiv_bound:
  assumes "0 \<le> x" "x \<le> of_nat n" "0 < n" "n \<le> 2 ^ 53"
  shows "0 \<le> fdiv x (float_of_nat n) \<and> fdiv x (float_of_nat n) \<le> 1"
proof -
  have n: "float_of_nat n = of_nat n" using assms(4) by (rule float_of_nat_exact)
  have q: "0 \<le> x / of_nat n" "x / of_nat n \<le> 1"
    using assms(1,2,3) by (simp_all add: divide_le_eq)
  have "fl (x / of_nat n) \<le> fl 1" using q by (rule fl_mono)
  then show ?thesis using fl_nonneg [OF q(1)] by (simp add: fdiv_def n)
qed

lemma weight_bound:
  assumes "0 \<le> s" "s \<le> 1"
  shows "0 \<le> fadd (1 / 2) (fmul (1 / 2) s) \<and> fadd (1 / 2) (fmul (1 / 2) s) \<le> 1"
proof -
  have h0: "0 \<le> fl (1 / 2 * s)" using assms by (intro fl_nonneg) simp
  have "fl (1 / 2 * s) \<le> fl (1 / 2)" using assms by (intro fl_mono) simp_all
  then have h1: "fl (1 / 2 * s) \<le> 1 / 2" by simp
  have "fl (1 / 2 + fl (1 / 2 * s)) \<le> fl 1" using h0 h1 by (intro fl_mono) simp_all
  moreover have "0 \<le> fl (1 / 2 + fl (1 / 2 * s))" using h0 by (intro fl_nonneg) simp
  ultimately show ?thesis by (simp add: fadd_def fmul_def)
qed

lemma list_diff_bound:
  assumes f: "\<And>x y. x \<in> set X \<Longrightarrow> y \<in> set Y \<Longrightarrow> 0 \<le> snd (f x y) \<and> snd (f x y) \<le> 1"
    and n: "length X + length Y \<le> 2 ^ 53"
  shows "0 \<le> snd (list_diff f mk X Y) \<and> snd (list_diff f mk X Y) \<le> 1"
proof -
  define S where "S = list_diff_script f X Y"
  have inv: "script_inv f X Y (length X) (length Y) S"
    unfolding S_def by (rule script_inv_script)
  have sc: "0 \<le> score_of e \<and> score_of e \<le> 1" if "e \<in> set S" for e
  proof -
    obtain sg v p s where e: "e = (sg, v, p, s)" by (cases e)
    have ok: "edit_ok f X Y (length X) (length Y) e"
      using inv that by (simp add: script_inv_def list_all_iff)
    show ?thesis
    proof (cases "sg = 0")
      case True
      then obtain i' where "i' < length X" "p < length Y" "(v, s) = f (X ! i') (Y ! p)"
        using ok by (auto simp: edit_ok_def e)
      then have "s = snd (f (X ! i') (Y ! p))" "X ! i' \<in> set X" "Y ! p \<in> set Y"
        by (simp_all add: snd_def split: prod.splits) (metis snd_conv)
      then show ?thesis using f by (simp add: score_of_def e)
    next
      case False
      then have "s = 0" using ok by (auto simp: edit_ok_def e)
      then show ?thesis by (simp add: score_of_def e)
    qed
  qed
  have len: "length S = length (filter (\<lambda>e. sign_of e = 1) S) + length X"
  proof -
    have "length (filter (\<lambda>e. sign_of e \<noteq> 1) S) = length X"
      using inv by (simp add: script_inv_def)
    then show ?thesis using sum_length_filter_compl [of "\<lambda>e. sign_of e = 1" S] by simp
  qed
  have ins: "length (filter (\<lambda>e. sign_of e = 1) S) \<le> length Y"
  proof -
    have "map pos_of (filter (\<lambda>e. sign_of e \<noteq> - 1) S) = [0..<length Y]"
      using inv by (simp add: script_inv_def)
    then have "length (map pos_of (filter (\<lambda>e. sign_of e \<noteq> - 1) S)) = length [0..<length Y]"
      by (rule arg_cong)
    then have 1: "length (filter (\<lambda>e. sign_of e \<noteq> - 1) S) = length Y" by simp
    have "filter (\<lambda>e. sign_of e = 1) (filter (\<lambda>e. sign_of e \<noteq> - 1) S)
        = filter (\<lambda>e. sign_of e = 1) S"
      unfolding filter_filter by (rule filter_cong) auto
    then have "length (filter (\<lambda>e. sign_of e = 1) S)
        \<le> length (filter (\<lambda>e. sign_of e \<noteq> - 1) S)"
      using length_filter_le [of "\<lambda>e. sign_of e = 1" "filter (\<lambda>e. sign_of e \<noteq> - 1) S"] by simp
    then show ?thesis using 1 by simp
  qed
  have lS: "length S \<le> 2 ^ 53" using len ins n by simp
  have ts: "tot_s (list_collect S) = foldl fadd 0 (map score_of S)"
    by (simp add: list_collect_def collect_tot_s)
  have b: "0 \<le> foldl fadd 0 (map score_of S) \<and> foldl fadd 0 (map score_of S) \<le> of_nat (0 + length (map score_of S))"
    using lS sc by (intro foldl_fadd_bound) auto
  have li: "length (inserted (list_collect S)) = length (filter (\<lambda>e. sign_of e = 1) S)"
    by (simp add: list_collect_def collect_inserted)
  have tn: "length X + length (inserted (list_collect S)) = length S" using len li by simp
  have "0 \<le> list_similarity X (list_collect S) \<and> list_similarity X (list_collect S) \<le> 1"
  proof (cases "length S = 0")
    case True
    show ?thesis unfolding list_similarity_def Let_def tn using True by simp
  next
    case False
    have "0 \<le> fdiv (tot_s (list_collect S)) (float_of_nat (length S))
        \<and> fdiv (tot_s (list_collect S)) (float_of_nat (length S)) \<le> 1"
      unfolding ts using b False lS by (intro fdiv_bound) simp_all
    then show ?thesis unfolding list_similarity_def Let_def tn using False by simp
  qed
  then show ?thesis by (simp add: list_diff_def S_def Let_def)
qed


lemma dict_diff_bound:
  assumes f: "\<And>v w. v \<in> snd ` set a \<Longrightarrow> w \<in> snd ` set b \<Longrightarrow> 0 \<le> snd (f v w) \<and> snd (f v w) \<le> 1"
    and n: "length a + length b \<le> 2 ^ 53"
  shows "0 \<le> snd (dict_diff f a b) \<and> snd (dict_diff f a b) \<le> 1"
proof -
  let ?M = "\<lambda>kv. \<not> is_Sym (dict_get_missing b (fst kv))"
  let ?R = "\<lambda>kv. dict_get_missing b (fst kv) = Sym Missing"
  let ?W = "\<lambda>kv. fadd (1 / 2) (fmul (1 / 2) (snd (f (snd kv) (dict_get_missing b (fst kv)))))"
  define acc where "acc = fold (dict_step f b) a
      \<lparr>removed = [], nremoved = 0, nmatched = 0, smatched = 0, dchanged = []\<rparr>"
  have nm: "nmatched acc = length (filter ?M a)"
    and nr: "nremoved acc = length (filter ?R a)"
    and sm: "smatched acc = foldl fadd 0 (map ?W (filter ?M a))"
    unfolding acc_def fold_dict_step_fields by simp_all
  have w: "0 \<le> ?W kv \<and> ?W kv \<le> 1" if "kv \<in> set (filter ?M a)" for kv
  proof -
    from that have kv: "kv \<in> set a" and m: "\<not> is_Sym (dict_get_missing b (fst kv))" by simp_all
    from m obtain w where "map_of b (fst kv) = Some w"
      by (cases "map_of b (fst kv)") (simp_all add: dict_get_missing_def)
    then have "dict_get_missing b (fst kv) \<in> snd ` set b"
      using map_of_SomeD [of b "fst kv" w] by (force simp: dict_get_missing_def)
    moreover have "snd kv \<in> snd ` set a" using kv by simp
    ultimately have "0 \<le> snd (f (snd kv) (dict_get_missing b (fst kv)))
        \<and> snd (f (snd kv) (dict_get_missing b (fst kv))) \<le> 1"
      by (rule f [rotated])
    then show ?thesis using weight_bound by blast
  qed
  have la: "length (filter ?R a) + length (filter ?M a) \<le> length a"
  proof -
    have "filter ?R (filter (\<lambda>kv. \<not> ?M kv) a) = filter ?R a"
      unfolding filter_filter by (rule filter_cong) auto
    then have "length (filter ?R a) \<le> length (filter (\<lambda>kv. \<not> ?M kv) a)"
      using length_filter_le [of ?R "filter (\<lambda>kv. \<not> ?M kv) a"] by simp
    then show ?thesis using sum_length_filter_compl [of ?M a] by simp
  qed
  define n_tot where "n_tot = nremoved acc + nmatched acc + length (dict_added a b)"
  have "length (dict_added a b) \<le> length b" by (simp add: dict_added_def)
  then have nt: "n_tot \<le> 2 ^ 53" "nmatched acc \<le> n_tot"
    using la n by (simp_all add: n_tot_def nm nr)
  have "length (filter ?M a) \<le> 2 ^ 53" using nt by (simp add: nm)
  then have b: "0 \<le> smatched acc \<and> smatched acc \<le> of_nat (0 + length (map ?W (filter ?M a)))"
    unfolding sm using w by (intro foldl_fadd_bound) auto
  then have b': "0 \<le> smatched acc" "smatched acc \<le> of_nat n_tot"
  proof -
    show "0 \<le> smatched acc" using b by simp
    have "(of_nat (length (filter ?M a)) :: rat) \<le> of_nat n_tot"
      using nt(2) unfolding nm by (rule of_nat_mono)
    then show "smatched acc \<le> of_nat n_tot" using b by simp
  qed
  have "0 \<le> (if n_tot \<noteq> 0 then fdiv (smatched acc) (float_of_nat n_tot) else 1)
      \<and> (if n_tot \<noteq> 0 then fdiv (smatched acc) (float_of_nat n_tot) else 1) \<le> 1"
  proof (cases "n_tot = 0")
    case False
    then have "0 < n_tot" by simp
    from fdiv_bound [OF b' this nt(1)] show ?thesis using False by simp
  qed simp
  then show ?thesis
    unfolding dict_diff_def Let_def acc_def [symmetric] n_tot_def [symmetric] by simp
qed

lemma greedy_matches_subset: "set (greedy_matches rk r2 a2) \<subseteq> set rk"
proof (induction rk arbitrary: r2 a2)
  case (Cons t rk)
  obtain s x y where t: "t = (s, x, y)" by (cases t)
  show ?case using Cons.IH unfolding t by (simp add: subset_insertI2)
qed simp

lemma greedy_matches_length: "length (greedy_matches rk r2 a2) \<le> length r2"
proof (induction rk arbitrary: r2 a2)
  case (Cons t rk)
  obtain s x y where t: "t = (s, x, y)" by (cases t)
  show ?case
  proof (cases "r2 \<noteq> [] \<and> a2 \<noteq> [] \<and> x \<in> set r2 \<and> y \<in> set a2")
    case True
    then have "length (removeAll x r2) < length r2" by (simp add: length_removeAll_less)
    moreover have "length (greedy_matches rk (removeAll x r2) (removeAll y a2)) \<le> length (removeAll x r2)"
      by (rule Cons.IH)
    ultimately show ?thesis using True by (simp add: t)
  next
    case False
    then show ?thesis using Cons.IH [of r2 a2] by (auto simp: t)
  qed
qed simp

lemma set_ranking_scores:
  "t \<in> set (set_ranking f rmv adds) \<Longrightarrow> \<exists>x \<in> set rmv. \<exists>y \<in> set adds. fst t = snd (f x y)"
  by (fastforce simp: set_ranking_def)

lemma set_diff_bound:
  assumes f: "\<And>x y. x \<in> set a \<Longrightarrow> y \<in> set b \<Longrightarrow> 0 \<le> snd (f x y) \<and> snd (f x y) \<le> 1"
    and n: "length a + length b \<le> 2 ^ 53"
  shows "0 \<le> snd (set_diff f a b) \<and> snd (set_diff f a b) \<le> 1"
proof (cases "set_difference a b = [] \<and> set_difference b a = []")
  case True
  then show ?thesis by (simp add: set_diff_def set_diff_ordered_def)
next
  case False
  define rmv where "rmv = set_difference a b"
  define adds where "adds = set_difference b a"
  define G where "G = greedy_matches (set_ranking f rmv adds) rmv adds"
  have lr: "length rmv \<le> length a" and la: "length adds \<le> length b"
    by (simp_all add: rmv_def adds_def set_difference_def)
  have ne: "rmv \<noteq> [] \<or> adds \<noteq> []" using False by (simp add: rmv_def adds_def)
  have sub: "set rmv \<subseteq> set a" "set adds \<subseteq> set b"
    by (auto simp: rmv_def adds_def set_difference_def)
  have sc: "0 \<le> w \<and> w \<le> 1" if "w \<in> set (map fst G)" for w
  proof -
    from that obtain t where "t \<in> set G" "w = fst t" by auto
    then have "t \<in> set (set_ranking f rmv adds)" using greedy_matches_subset G_def by blast
    from set_ranking_scores [OF this] obtain x y where "x \<in> set rmv" "y \<in> set adds" "fst t = snd (f x y)"
      by blast
    then show ?thesis using f [of x y] sub \<open>w = fst t\<close> by auto
  qed
  define n0 where "n0 = length a - length rmv"
  have lG: "length G \<le> length rmv" unfolding G_def by (rule greedy_matches_length)
  have k: "n0 + length (map fst G) \<le> 2 ^ 53" using lG lr n by (simp add: n0_def)
  have n0: "float_of_nat n0 = of_nat n0" using k by (intro float_of_nat_exact) simp
  have "0 \<le> foldl fadd (of_nat n0) (map fst G) \<and> foldl fadd (of_nat n0) (map fst G) \<le> of_nat (n0 + length (map fst G))"
    using sc k by (intro foldl_fadd_bound) auto
  moreover have "(of_nat (n0 + length (map fst G)) :: rat) \<le> of_nat (length a + length adds)"
    using lG lr by (intro of_nat_mono) (simp add: n0_def)
  ultimately have b: "0 \<le> foldl fadd (float_of_nat n0) (map fst G)"
      "foldl fadd (float_of_nat n0) (map fst G) \<le> of_nat (length a + length adds)"
    unfolding n0 by simp_all
  have pos: "0 < length a + length adds"
  proof (cases "adds = []")
    case True
    then have "rmv \<noteq> []" using ne by simp
    then show ?thesis using lr by (cases a) auto
  qed simp
  have le: "length a + length adds \<le> 2 ^ 53" using la n by simp
  from set_diff_ordered_score [OF lr ne, of f b]
  have "snd (set_diff f a b) = fdiv (foldl fadd (float_of_nat n0) (map fst G)) (float_of_nat (length a + length adds))"
    by (simp add: set_diff_def rmv_def adds_def G_def n0_def)
  then show ?thesis using fdiv_bound [OF b pos le] by simp
qed


lemma length_le_size_list: "length xs \<le> size_list f xs"
  by (induction xs) simp_all

lemma value_diff_bound: "0 \<le> snd (value_diff a b) \<and> snd (value_diff a b) \<le> 1"
  by (simp add: value_diff_def)

lemma obj_diff_cases:
  "obj_diff (Dict kvs) (Dict kvs') = dict_diff obj_diff kvs kvs'"
  "obj_diff (Tuple X) (Tuple Y) = list_diff obj_diff Tuple X Y"
  "obj_diff (List X) (List Y) = list_diff obj_diff List X Y"
  "obj_diff (SetV X) (SetV Y) = set_diff obj_diff X Y"
  by (simp_all add: obj_diff.simps)

lemma obj_diff_other:
  "(\<forall>x y. a = Dict x \<longrightarrow> b \<noteq> Dict y) \<Longrightarrow> (\<forall>x y. a = Tuple x \<longrightarrow> b \<noteq> Tuple y) \<Longrightarrow>
   (\<forall>x y. a = List x \<longrightarrow> b \<noteq> List y) \<Longrightarrow> (\<forall>x y. a = SetV x \<longrightarrow> b \<noteq> SetV y) \<Longrightarrow>
   obj_diff a b = value_diff a b"
  by (cases a; cases b) (simp_all add: obj_diff.simps)

lemma obj_diff_bound:
  "size x + size y \<le> 2 ^ 53 \<Longrightarrow> 0 \<le> snd (obj_diff x y) \<and> snd (obj_diff x y) \<le> 1"
proof (induction x arbitrary: y)
  case (Dict kvs)
  show ?case
  proof (cases y)
    case y: (Dict kvs')
    have "0 \<le> snd (dict_diff obj_diff kvs kvs') \<and> snd (dict_diff obj_diff kvs kvs') \<le> 1"
    proof (rule dict_diff_bound)
      fix v w assume v: "v \<in> snd ` set kvs" and w: "w \<in> snd ` set kvs'"
      from v obtain k where kv: "(k, v) \<in> set kvs" by auto
      from w obtain k' where kw: "(k', w) \<in> set kvs'" by auto
      have "size v + size w \<le> 2 ^ 53"
        using size_in_alist [OF kv] size_in_alist [OF kw] Dict.prems by (simp add: y)
      moreover have "v \<in> Basic_BNFs.snds (k, v)" by simp
      ultimately show "0 \<le> snd (obj_diff v w) \<and> snd (obj_diff v w) \<le> 1"
        using Dict.IH kv by blast
    next
      show "length kvs + length kvs' \<le> 2 ^ 53"
        using length_le_size_list [of kvs "size_prod size size"]
          length_le_size_list [of kvs' "size_prod size size"] Dict.prems by (simp add: y)
    qed
    then show ?thesis by (simp add: y obj_diff_cases)
  qed (simp_all add: obj_diff_other value_diff_bound)
next
  case (List xs)
  show ?case
  proof (cases y)
    case y: (List ys)
    have "0 \<le> snd (list_diff obj_diff List xs ys) \<and> snd (list_diff obj_diff List xs ys) \<le> 1"
    proof (rule list_diff_bound)
      fix v w assume v: "v \<in> set xs" and w: "w \<in> set ys"
      have "size v + size w \<le> 2 ^ 53"
        using size_in_list [OF v] size_in_list [OF w] List.prems by (simp add: y)
      then show "0 \<le> snd (obj_diff v w) \<and> snd (obj_diff v w) \<le> 1"
        using List.IH v by blast
    next
      show "length xs + length ys \<le> 2 ^ 53"
        using length_le_size_list [of xs size] length_le_size_list [of ys size] List.prems
        by (simp add: y)
    qed
    then show ?thesis by (simp add: y obj_diff_cases)
  qed (simp_all add: obj_diff_other value_diff_bound)
next
  case (Tuple xs)
  show ?case
  proof (cases y)
    case y: (Tuple ys)
    have "0 \<le> snd (list_diff obj_diff Tuple xs ys) \<and> snd (list_diff obj_diff Tuple xs ys) \<le> 1"
    proof (rule list_diff_bound)
      fix v w assume v: "v \<in> set xs" and w: "w \<in> set ys"
      have "size v + size w \<le> 2 ^ 53"
        using size_in_list [OF v] size_in_list [OF w] Tuple.prems by (simp add: y)
      then show "0 \<le> snd (obj_diff v w) \<and> snd (obj_diff v w) \<le> 1"
        using Tuple.IH v by blast
    next
      show "length xs + length ys \<le> 2 ^ 53"
        using length_le_size_list [of xs size] length_le_size_list [of ys size] Tuple.prems
        by (simp add: y)
    qed
    then show ?thesis by (simp add: y obj_diff_cases)
  qed (simp_all add: obj_diff_other value_diff_bound)
next
  case (SetV xs)
  show ?case
  proof (cases y)
    case y: (SetV ys)
    have "0 \<le> snd (set_diff obj_diff xs ys) \<and> snd (set_diff obj_diff xs ys) \<le> 1"
    proof (rule set_diff_bound)
      fix v w assume v: "v \<in> set xs" and w: "w \<in> set ys"
      have "size v + size w \<le> 2 ^ 53"
        using size_in_list [OF v] size_in_list [OF w] SetV.prems by (simp add: y)
      then show "0 \<le> snd (obj_diff v w) \<and> snd (obj_diff v w) \<le> 1"
        using SetV.IH v by blast
    next
      show "length xs + length ys \<le> 2 ^ 53"
        using length_le_size_list [of xs size] length_le_size_list [of ys size] SetV.prems
        by (simp add: y)
    qed
    then show ?thesis by (simp add: y obj_diff_cases)
  qed (simp_all add: obj_diff_other value_diff_bound)
qed (simp_all add: obj_diff_other value_diff_bound)


lemma lcs_row_length [simp]: "length (lcs_row f x ys prev left) = length ys"
  by (induction ys arbitrary: prev left) (simp_all add: Let_def)

lemma lcs_row_nth:
  "length prev = Suc (length ys) \<Longrightarrow> k < length ys \<Longrightarrow>
     (left # lcs_row f x ys prev left) ! Suc k
       = max ((left # lcs_row f x ys prev left) ! k)
           (max (prev ! Suc k) (fadd (prev ! k) (snd (f x (ys ! k)))))"
proof (induction ys arbitrary: prev left k)
  case Nil
  then show ?case by simp
next
  case (Cons y ys)
  define c where "c = max left (max (prev ! 1) (fadd (prev ! 0) (snd (f x y))))"
  have r: "lcs_row f x (y # ys) prev left = c # lcs_row f x ys (tl prev) c"
    by (simp add: c_def Let_def)
  show ?case
  proof (cases k)
    case 0
    then show ?thesis unfolding r by (simp add: c_def)
  next
    case (Suc k')
    have l: "length (tl prev) = Suc (length ys)" using Cons.prems(1) by simp
    have k': "k' < length ys" using Cons.prems(2) Suc by simp
    have t: "tl prev ! Suc k' = prev ! Suc (Suc k')" "tl prev ! k' = prev ! Suc k'"
      using Cons.prems(1) k' by (simp_all add: nth_tl)
    from Cons.IH [OF l k', of c] show ?thesis unfolding r by (simp add: Suc t)
  qed
qed

lemma lcs_rows_nth:
  "i < length xs \<Longrightarrow>
     (prev # lcs_rows f xs Y prev) ! Suc i
       = 0 # lcs_row f (xs ! i) Y ((prev # lcs_rows f xs Y prev) ! i) 0"
proof (induction xs arbitrary: prev i)
  case Nil
  then show ?case by simp
next
  case (Cons x xs)
  define row where "row = 0 # lcs_row f x Y prev 0"
  have r: "lcs_rows f (x # xs) Y prev = row # lcs_rows f xs Y row"
    by (simp add: row_def Let_def)
  show ?case
  proof (cases i)
    case 0
    then show ?thesis unfolding r by (simp add: row_def)
  next
    case (Suc i')
    then have "i' < length xs" using Cons.prems by simp
    from Cons.IH [OF this, of row] show ?thesis unfolding r by (simp add: Suc)
  qed
qed

lemma table_row_0: "lcs_table f X Y ! 0 = replicate (Suc (length Y)) 0"
  by (simp add: lcs_table_def Let_def)

lemma table_row_Suc:
  "i < length X \<Longrightarrow> lcs_table f X Y ! Suc i = 0 # lcs_row f (X ! i) Y (lcs_table f X Y ! i) 0"
  unfolding lcs_table_def Let_def by (rule lcs_rows_nth)

lemma table_row_length: "i \<le> length X \<Longrightarrow> length (lcs_table f X Y ! i) = Suc (length Y)"
  by (cases i) (simp_all add: table_row_0 table_row_Suc)

lemma table_first:
  "j \<le> length Y \<Longrightarrow> lcs_table f X Y ! 0 ! j = 0"
  "i \<le> length X \<Longrightarrow> lcs_table f X Y ! i ! 0 = 0"
proof -
  show "j \<le> length Y \<Longrightarrow> lcs_table f X Y ! 0 ! j = 0"
    unfolding table_row_0 by (rule nth_replicate) simp
  show "i \<le> length X \<Longrightarrow> lcs_table f X Y ! i ! 0 = 0"
    by (cases i) (simp_all add: table_row_0 table_row_Suc)
qed

lemma table_step:
  assumes "i < length X" "j < length Y"
  shows "lcs_table f X Y ! Suc i ! Suc j
     = max (lcs_table f X Y ! Suc i ! j)
         (max (lcs_table f X Y ! i ! Suc j)
            (fadd (lcs_table f X Y ! i ! j) (snd (f (X ! i) (Y ! j)))))"
proof -
  have l: "length (lcs_table f X Y ! i) = Suc (length Y)"
    using assms(1) by (intro table_row_length) simp
  from lcs_row_nth [OF l assms(2), of 0 f "X ! i"]
  show ?thesis unfolding table_row_Suc [OF assms(1), symmetric] .
qed

lemma table_bound:
  assumes sc: "\<And>i j. i < length X \<Longrightarrow> j < length Y \<Longrightarrow>
      0 \<le> snd (f (X ! i) (Y ! j)) \<and> snd (f (X ! i) (Y ! j)) \<le> 1"
    and n: "length X \<le> 2 ^ 53"
  shows "i \<le> length X \<Longrightarrow> j \<le> length Y \<Longrightarrow>
     0 \<le> lcs_table f X Y ! i ! j \<and> lcs_table f X Y ! i ! j \<le> of_nat (min i j)"
proof (induction i arbitrary: j)
  case 0
  then show ?case by (simp add: table_first)
next
  case (Suc i)
  have i: "i < length X" using Suc.prems(1) by simp
  show ?case using Suc.prems(2)
  proof (induction j)
    case 0
    then show ?case using Suc.prems(1) by (simp add: table_first)
  next
    case (Suc j)
    have j: "j < length Y" using Suc.prems by simp
    let ?C = "lcs_table f X Y"
    have a: "0 \<le> ?C ! Suc i ! j" "?C ! Suc i ! j \<le> of_nat (min (Suc i) j)"
      using Suc.IH j by simp_all
    have b: "0 \<le> ?C ! i ! Suc j" "?C ! i ! Suc j \<le> of_nat (min i (Suc j))"
      using \<open>\<And>j. i \<le> length X \<Longrightarrow> j \<le> length Y \<Longrightarrow> 0 \<le> ?C ! i ! j \<and> ?C ! i ! j \<le> of_nat (min i j)\<close> [of "Suc j"] i j
      by simp_all
    have c: "0 \<le> ?C ! i ! j" "?C ! i ! j \<le> of_nat (min i j)"
      using \<open>\<And>j. i \<le> length X \<Longrightarrow> j \<le> length Y \<Longrightarrow> 0 \<le> ?C ! i ! j \<and> ?C ! i ! j \<le> of_nat (min i j)\<close> [of j] i j
      by simp_all
    have s: "0 \<le> snd (f (X ! i) (Y ! j))" "snd (f (X ! i) (Y ! j)) \<le> 1"
      using sc [OF i j] by simp_all
    have "?C ! i ! j + snd (f (X ! i) (Y ! j)) \<le> of_nat (Suc (min i j))"
      using c(2) s(2) by simp
    then have "fl (?C ! i ! j + snd (f (X ! i) (Y ! j))) \<le> fl (of_nat (Suc (min i j)))"
      using c(1) s(1) by (intro fl_mono) simp_all
    moreover have "fl (of_nat (Suc (min i j))) = (of_nat (Suc (min i j)) :: rat)"
      using i n by (intro fl_of_nat) simp
    ultimately have d: "fadd (?C ! i ! j) (snd (f (X ! i) (Y ! j))) \<le> of_nat (min (Suc i) (Suc j))"
      by (simp add: fadd_def)
    have a': "?C ! Suc i ! j \<le> of_nat (min (Suc i) (Suc j))"
    proof -
      have "(of_nat (min (Suc i) j) :: rat) \<le> of_nat (min (Suc i) (Suc j))"
        by (intro of_nat_mono) simp
      then show ?thesis using a(2) by simp
    qed
    have b': "?C ! i ! Suc j \<le> of_nat (min (Suc i) (Suc j))"
    proof -
      have "(of_nat (min i (Suc j)) :: rat) \<le> of_nat (min (Suc i) (Suc j))"
        by (intro of_nat_mono) simp
      then show ?thesis using b(2) by simp
    qed
    show ?case unfolding table_step [OF i j] using a(1) a' b' d by (simp add: max_def)
  qed
qed


subsection \<open>The diff of equal values\<close>

lemma py_eq_cases:
  "py_eq (Dict kvs) (Dict kvs') =
     (length kvs = length kvs'
      \<and> (\<forall>kv \<in> set kvs. case map_of kvs' (fst kv) of None \<Rightarrow> False | Some w \<Rightarrow> py_eq (snd kv) w))"
  "py_eq (List X) (List Y) = list_all2 py_eq X Y"
  "py_eq (Tuple X) (Tuple Y) = list_all2 py_eq X Y"
  "py_eq (SetV X) (SetV Y) = (set X = set Y)"
  by (simp_all add: py_eq.simps)

lemma py_eq_other:
  "(\<forall>x y. a = Dict x \<longrightarrow> b \<noteq> Dict y) \<Longrightarrow> (\<forall>x y. a = Tuple x \<longrightarrow> b \<noteq> Tuple y) \<Longrightarrow>
   (\<forall>x y. a = List x \<longrightarrow> b \<noteq> List y) \<Longrightarrow> (\<forall>x y. a = SetV x \<longrightarrow> b \<noteq> SetV y) \<Longrightarrow>
   py_eq a b = (a = b)"
  by (cases a; cases b) (simp_all add: py_eq.simps)

lemma foldl_fadd_ones:
  "k + m \<le> 2 ^ 53 \<Longrightarrow> foldl fadd (of_nat k) (replicate m 1) = of_nat (k + m)"
proof (induction m arbitrary: k)
  case (Suc m)
  have "fadd (of_nat k) 1 = fl (of_nat (Suc k))" by (simp add: fadd_def add.commute)
  also have "\<dots> = of_nat (Suc k)" using Suc.prems by (intro fl_of_nat) simp
  finally have 1: "fadd (of_nat k) 1 = of_nat (Suc k)" .
  have "Suc k + m \<le> 2 ^ 53" using Suc.prems by simp
  from Suc.IH [OF this] show ?case by (simp add: 1)
qed simp

lemma fdiv_self:
  assumes "0 < n" "n \<le> 2 ^ 53"
  shows "fdiv (of_nat n) (float_of_nat n) = 1"
  using assms by (simp add: fdiv_def float_of_nat_exact)

lemma table_diagonal:
  assumes sc: "\<And>i j. i < length X \<Longrightarrow> j < length Y \<Longrightarrow>
      0 \<le> snd (f (X ! i) (Y ! j)) \<and> snd (f (X ! i) (Y ! j)) \<le> 1"
    and one: "\<And>i. i < length X \<Longrightarrow> snd (f (X ! i) (Y ! i)) = 1"
    and l: "length Y = length X"
    and n: "length X \<le> 2 ^ 53"
  shows "i \<le> length X \<Longrightarrow> lcs_table f X Y ! i ! i = of_nat i"
proof (induction i)
  case 0
  then show ?case by (simp add: table_first)
next
  case (Suc i)
  let ?C = "lcs_table f X Y"
  have i: "i < length X" "i < length Y" using Suc.prems l by simp_all
  have d: "?C ! i ! i = of_nat i" using Suc.IH i by simp
  have "fadd (of_nat i) 1 = fl (of_nat (Suc i))" by (simp add: fadd_def add.commute)
  also have "\<dots> = of_nat (Suc i)" using i n by (intro fl_of_nat) simp
  finally have m: "fadd (?C ! i ! i) (snd (f (X ! i) (Y ! i))) = of_nat (Suc i)"
    by (simp add: d one [OF i(1)])
  have "?C ! Suc i ! i \<le> of_nat (min (Suc i) i)"
    using table_bound [where f = f and X = X and Y = Y and i = "Suc i" and j = i, OF sc n] i by simp
  then have a: "?C ! Suc i ! i \<le> of_nat (Suc i)" by simp
  have "?C ! i ! Suc i \<le> of_nat (min i (Suc i))"
    using table_bound [where f = f and X = X and Y = Y and i = i and j = "Suc i", OF sc n] i by simp
  then have b: "?C ! i ! Suc i \<le> of_nat (Suc i)" by simp
  show ?case unfolding table_step [OF i] m using a b by (simp add: max_def)
qed

lemma script_of_equal_lists:
  assumes sc: "\<And>i j. i < length X \<Longrightarrow> j < length Y \<Longrightarrow>
      0 \<le> snd (f (X ! i) (Y ! j)) \<and> snd (f (X ! i) (Y ! j)) \<le> 1"
    and same: "\<And>i. i < length X \<Longrightarrow> f (X ! i) (Y ! i) = (Dict [], 1)"
    and l: "length Y = length X"
    and n: "length X \<le> 2 ^ 53"
  shows "i \<le> length X \<Longrightarrow>
     list_diff_0 f (lcs_table f X Y) X Y i i [] = map (\<lambda>k. (0, Dict [], k, 1)) [0..<i]"
proof (induction i)
  case 0
  then show ?case by (simp add: script_nil)
next
  case (Suc i)
  let ?C = "lcs_table f X Y"
  have i: "i < length X" using Suc.prems by simp
  have one: "\<And>i. i < length X \<Longrightarrow> snd (f (X ! i) (Y ! i)) = 1" by (simp add: same)
  have d: "?C ! i ! i = of_nat i" "?C ! Suc i ! Suc i = of_nat (Suc i)"
    using table_diagonal [where f = f and X = X and Y = Y, OF sc one l n] i by simp_all
  have "fadd (of_nat i) 1 = fl (of_nat (Suc i))" by (simp add: fadd_def add.commute)
  also have "\<dots> = of_nat (Suc i)" using i n by (intro fl_of_nat) simp
  finally have "is_match f ?C X Y (Suc i) (Suc i)"
    by (simp add: is_match_def d same [OF i])
  from script_match [OF this] show ?case using Suc.IH i by (simp add: same [OF i])
qed

lemma list_diff_equal_lists:
  assumes sc: "\<And>i j. i < length X \<Longrightarrow> j < length Y \<Longrightarrow>
      0 \<le> snd (f (X ! i) (Y ! j)) \<and> snd (f (X ! i) (Y ! j)) \<le> 1"
    and same: "\<And>i. i < length X \<Longrightarrow> f (X ! i) (Y ! i) = (Dict [], 1)"
    and l: "length Y = length X"
    and n: "length X \<le> 2 ^ 53"
  shows "list_diff f mk X Y = (Dict [], 1)"
proof -
  define S where "S = list_diff_script f X Y"
  have S: "S = map (\<lambda>k. (0, Dict [], k, 1)) [0..<length X]"
    unfolding S_def list_diff_script_def l
    using script_of_equal_lists [where f = f and X = X and Y = Y, OF sc same l n] by simp
  have ins: "inserted (list_collect S) = []"
    by (simp add: list_collect_def collect_inserted S sign_of_def filter_map comp_def)
  have "map score_of S = replicate (length X) 1"
    by (simp add: S score_of_def comp_def map_replicate_const)
  then have "tot_s (list_collect S) = foldl fadd (of_nat 0) (replicate (length X) 1)"
    by (simp add: list_collect_def collect_tot_s)
  also have "\<dots> = of_nat (length X)" using n by (subst foldl_fadd_ones) simp_all
  finally have ts: "tot_s (list_collect S) = of_nat (length X)" .
  have "list_similarity X (list_collect S) = 1"
  proof (cases "length X = 0")
    case True
    then show ?thesis by (simp add: list_similarity_def ins)
  next
    case False
    then have "fdiv (of_nat (length X)) (float_of_nat (length X)) = 1"
      using n by (intro fdiv_self) simp_all
    then show ?thesis using False by (simp add: list_similarity_def ins ts)
  qed
  then show ?thesis
    unfolding list_diff_def S_def [symmetric] Let_def by (simp add: emit_list_diff_def)
qed

lemma dict_step_same:
  assumes "map_of y k = Some w" "\<not> is_Sym w" "f v w = (Dict [], 1)"
  shows "dict_step f y (k, v) acc
     = acc\<lparr>nmatched := nmatched acc + 1, smatched := fadd (smatched acc) 1\<rparr>"
proof -
  have g: "dict_get_missing y k = w" using assms(1) by (simp add: dict_get_missing_def)
  have w: "fadd (1 / 2) (fmul (1 / 2) 1) = 1" by (simp add: fadd_def fmul_def)
  show ?thesis by (simp add: dict_step_def g assms(2,3) w)
qed

lemma dict_fold_same:
  assumes "\<And>k v. (k, v) \<in> set x \<Longrightarrow> \<exists>w. map_of y k = Some w \<and> \<not> is_Sym w \<and> f v w = (Dict [], 1)"
  shows "set l \<subseteq> set x \<Longrightarrow>
     fold (dict_step f y) l acc
       = acc\<lparr>nmatched := nmatched acc + length l,
              smatched := foldl fadd (smatched acc) (replicate (length l) 1)\<rparr>"
proof (induction l arbitrary: acc)
  case Nil
  then show ?case by simp
next
  case (Cons kv l)
  obtain k v where kv: "kv = (k, v)" by (cases kv)
  have m: "(k, v) \<in> set x" using Cons.prems by (simp add: kv)
  from assms [OF m] obtain w where w: "map_of y k = Some w" "\<not> is_Sym w" "f v w = (Dict [], 1)"
    by blast
  have st: "dict_step f y (k, v) acc
     = acc\<lparr>nmatched := nmatched acc + 1, smatched := fadd (smatched acc) 1\<rparr>"
    using w by (rule dict_step_same)
  have "set l \<subseteq> set x" using Cons.prems by simp
  from Cons.IH [OF this] show ?case by (simp add: kv st)
qed

lemma same_keys:
  assumes "distinct (map fst x)" "distinct (map fst y)" "length x = length y"
    and "\<And>k v. (k, v) \<in> set x \<Longrightarrow> map_of y k \<noteq> None"
  shows "fst ` set y = fst ` set x"
proof -
  have sub: "fst ` set x \<subseteq> fst ` set y"
  proof
    fix k assume "k \<in> fst ` set x"
    then obtain v where "(k, v) \<in> set x" by auto
    from assms(4) [OF this] show "k \<in> fst ` set y" by (simp add: map_of_eq_None_iff)
  qed
  have "card (fst ` set x) = length x" using assms(1) distinct_card [of "map fst x"] by simp
  moreover have "card (fst ` set y) = length y" using assms(2) distinct_card [of "map fst y"] by simp
  ultimately have "card (fst ` set x) = card (fst ` set y)" using assms(3) by simp
  with sub show ?thesis using card_subset_eq [of "fst ` set y" "fst ` set x"] by simp
qed

lemma dict_diff_equal:
  assumes "distinct (map fst x)" "distinct (map fst y)" "length x = length y"
    and m: "\<And>k v. (k, v) \<in> set x \<Longrightarrow> \<exists>w. map_of y k = Some w \<and> \<not> is_Sym w \<and> f v w = (Dict [], 1)"
    and n: "length x \<le> 2 ^ 53"
  shows "dict_diff f x y = (Dict [], 1)"
proof -
  let ?acc0 = "\<lparr>removed = [], nremoved = 0, nmatched = 0, smatched = 0, dchanged = []\<rparr>"
  have "foldl fadd (of_nat 0) (replicate (length x) 1) = of_nat (0 + length x)"
    using n by (intro foldl_fadd_ones) simp
  then have acc: "fold (dict_step f y) x ?acc0
      = \<lparr>removed = [], nremoved = 0, nmatched = length x, smatched = of_nat (length x), dchanged = []\<rparr>"
    using dict_fold_same [where f = f and x = x and y = y and l = x and acc = ?acc0, OF m] by simp
  have "map_of y k \<noteq> None" if "(k, v) \<in> set x" for k v using m [OF that] by auto
  then have keys: "fst ` set y = fst ` set x" using assms(1,2,3) by (intro same_keys) simp_all
  have "map_of x k \<noteq> None" if "(k, w) \<in> set y" for k w
  proof -
    have "k \<in> fst ` set x" using that keys by force
    then show ?thesis by (simp add: map_of_eq_None_iff)
  qed
  then have add: "dict_added x y = []" by (auto simp: dict_added_def filter_empty_conv)
  show ?thesis
  proof (cases "length x = 0")
    case True
    then show ?thesis unfolding dict_diff_def acc add Let_def by (simp add: emit_dict_diff_def)
  next
    case False
    then have "fdiv (of_nat (length x)) (float_of_nat (length x)) = 1"
      using n by (intro fdiv_self) simp_all
    then show ?thesis using False
      unfolding dict_diff_def acc add Let_def by (simp add: emit_dict_diff_def)
  qed
qed

lemma obj_diff_equal:
  "py_eq a b \<Longrightarrow> plain_dicts a \<Longrightarrow> plain_dicts b \<Longrightarrow> size a + size b \<le> 2 ^ 53 \<Longrightarrow>
     obj_diff a b = (Dict [], 1)"
proof (induction a arbitrary: b)
  case (Dict kvs)
  from Dict.prems(1) obtain kvs' where b: "b = Dict kvs'"
    by (cases b) (simp_all add: py_eq_other)
  have eq: "length kvs = length kvs'"
    "\<And>kv. kv \<in> set kvs \<Longrightarrow> case map_of kvs' (fst kv) of None \<Rightarrow> False | Some w \<Rightarrow> py_eq (snd kv) w"
    using Dict.prems(1) by (simp_all add: b py_eq_cases)
  have "dict_diff obj_diff kvs kvs' = (Dict [], 1)"
  proof (rule dict_diff_equal)
    show "distinct (map fst kvs)" using Dict.prems(2) by simp
    show "distinct (map fst kvs')" using Dict.prems(3) by (simp add: b)
    show "length kvs = length kvs'" by (rule eq)
  next
    fix k v assume kv: "(k, v) \<in> set kvs"
    from eq(2) [OF kv] obtain w where w: "map_of kvs' k = Some w" "py_eq v w"
      by (cases "map_of kvs' k") simp_all
    have kw: "(k, w) \<in> set kvs'" using w(1) by (rule map_of_SomeD)
    have pv: "plain_dicts v" using Dict.prems(2) kv by (force simp: list_all_iff)
    have pw: "\<not> is_Sym w" "plain_dicts w" using Dict.prems(3) kw by (force simp: b list_all_iff)+
    have "size v + size w \<le> 2 ^ 53"
      using size_in_alist [OF kv] size_in_alist [OF kw] Dict.prems(4) by (simp add: b)
    moreover have "v \<in> Basic_BNFs.snds (k, v)" by simp
    ultimately have "obj_diff v w = (Dict [], 1)" using Dict.IH kv w(2) pv pw(2) by blast
    then show "\<exists>w. map_of kvs' k = Some w \<and> \<not> is_Sym w \<and> obj_diff v w = (Dict [], 1)"
      using w(1) pw(1) by simp
  next
    show "length kvs \<le> 2 ^ 53"
      using length_le_size_list [of kvs "size_prod size size"] Dict.prems(4) by simp
  qed
  then show ?case by (simp add: b obj_diff_cases)
next
  case (List xs)
  from List.prems(1) obtain ys where b: "b = List ys"
    by (cases b) (simp_all add: py_eq_other)
  have eq: "list_all2 py_eq xs ys" using List.prems(1) by (simp add: b py_eq_cases)
  have l: "length ys = length xs" using eq by (simp add: list_all2_lengthD)
  have "list_diff obj_diff List xs ys = (Dict [], 1)"
  proof (rule list_diff_equal_lists)
    fix i j assume "i < length xs" "j < length ys"
    then have "size (xs ! i) < Suc (size_list size xs)" "size (ys ! j) < Suc (size_list size ys)"
      by (simp_all add: size_in_list)
    then have "size (xs ! i) + size (ys ! j) \<le> 2 ^ 53" using List.prems(4) by (simp add: b)
    then show "0 \<le> snd (obj_diff (xs ! i) (ys ! j)) \<and> snd (obj_diff (xs ! i) (ys ! j)) \<le> 1"
      by (rule obj_diff_bound)
  next
    fix i assume i: "i < length xs"
    then have m: "xs ! i \<in> set xs" "ys ! i \<in> set ys" using l by simp_all
    have e: "py_eq (xs ! i) (ys ! i)" using eq i by (simp add: list_all2_nthD)
    have p: "plain_dicts (xs ! i)" "plain_dicts (ys ! i)"
      using List.prems(2,3) m by (simp_all add: b list_all_iff)
    have "size (xs ! i) + size (ys ! i) \<le> 2 ^ 53"
      using size_in_list [OF m(1)] size_in_list [OF m(2)] List.prems(4) by (simp add: b)
    then show "obj_diff (xs ! i) (ys ! i) = (Dict [], 1)" using List.IH m(1) e p by blast
  next
    show "length ys = length xs" by (rule l)
    show "length xs \<le> 2 ^ 53" using length_le_size_list [of xs size] List.prems(4) by simp
  qed
  then show ?case by (simp add: b obj_diff_cases)
next
  case (Tuple xs)
  from Tuple.prems(1) obtain ys where b: "b = Tuple ys"
    by (cases b) (simp_all add: py_eq_other)
  have eq: "list_all2 py_eq xs ys" using Tuple.prems(1) by (simp add: b py_eq_cases)
  have l: "length ys = length xs" using eq by (simp add: list_all2_lengthD)
  have "list_diff obj_diff Tuple xs ys = (Dict [], 1)"
  proof (rule list_diff_equal_lists)
    fix i j assume "i < length xs" "j < length ys"
    then have "size (xs ! i) < Suc (size_list size xs)" "size (ys ! j) < Suc (size_list size ys)"
      by (simp_all add: size_in_list)
    then have "size (xs ! i) + size (ys ! j) \<le> 2 ^ 53" using Tuple.prems(4) by (simp add: b)
    then show "0 \<le> snd (obj_diff (xs ! i) (ys ! j)) \<and> snd (obj_diff (xs ! i) (ys ! j)) \<le> 1"
      by (rule obj_diff_bound)
  next
    fix i assume i: "i < length xs"
    then have m: "xs ! i \<in> set xs" "ys ! i \<in> set ys" using l by simp_all
    have e: "py_eq (xs ! i) (ys ! i)" using eq i by (simp add: list_all2_nthD)
    have p: "plain_dicts (xs ! i)" "plain_dicts (ys ! i)"
      using Tuple.prems(2,3) m by (simp_all add: b list_all_iff)
    have "size (xs ! i) + size (ys ! i) \<le> 2 ^ 53"
      using size_in_list [OF m(1)] size_in_list [OF m(2)] Tuple.prems(4) by (simp add: b)
    then show "obj_diff (xs ! i) (ys ! i) = (Dict [], 1)" using Tuple.IH m(1) e p by blast
  next
    show "length ys = length xs" by (rule l)
    show "length xs \<le> 2 ^ 53" using length_le_size_list [of xs size] Tuple.prems(4) by simp
  qed
  then show ?case by (simp add: b obj_diff_cases)
next
  case (SetV xs)
  from SetV.prems(1) obtain ys where b: "b = SetV ys"
    by (cases b) (simp_all add: py_eq_other)
  have "set xs = set ys" using SetV.prems(1) by (simp add: b py_eq_cases)
  then show ?case
    by (simp add: b obj_diff_cases set_diff_def set_diff_ordered_def set_difference_def)
qed (simp_all add: py_eq_other obj_diff_other value_diff_def emit_value_diff_def)

lemma py_eq_refl: "plain_dicts a \<Longrightarrow> py_eq a a"
proof (induction a)
  case (Dict kvs)
  have "case map_of kvs (fst kv) of None \<Rightarrow> False | Some w \<Rightarrow> py_eq (snd kv) w" if "kv \<in> set kvs" for kv
  proof -
    obtain k v where kv: "kv = (k, v)" by (cases kv)
    have "map_of kvs k = Some v" using Dict.prems that by (simp add: kv)
    moreover have "plain_dicts v" using Dict.prems that by (force simp: kv list_all_iff)
    moreover have "v \<in> Basic_BNFs.snds (k, v)" by simp
    ultimately show ?thesis using Dict.IH that kv by force
  qed
  then show ?case by (simp add: py_eq_cases)
next
  case (List xs)
  then show ?case by (simp add: py_eq_cases list_all2_same list_all_iff)
next
  case (Tuple xs)
  then show ?case by (simp add: py_eq_cases list_all2_same list_all_iff)
qed (simp_all add: py_eq_cases py_eq_other)

text \<open>
  C2. Let \<open>a\<close> and \<open>b\<close> be equal values (Python's \<^verbatim>\<open>==\<close>), for instance \<open>b\<close> a copy of
  \<open>a\<close>, built by a user (dicts with distinct keys and no marker as a value) and of at most
  \<open>2\<^sup>5\<^sup>3\<close> nodes together (\<open>size\<close> counts the nodes of a value). Then the diff of \<open>a\<close> against \<open>b\<close> is the empty dict and
  their similarity is \<open>1.0\<close>; and so is the result for one and the same object, the
  first branch of \<^verbatim>\<open>_obj_diff\<close>. The witness is a list with a dict, a set and a tuple
  in it, against an equal list whose dict and set have another order.
\<close>

theorem diff_identity:
  assumes "py_eq a b" "plain_dicts a" "plain_dicts b" "size a + size b \<le> 2 ^ 53"
  shows "diff a b = Dict [] \<and> similarity a b = 1 \<and> obj_diff_same a = (Dict [], 1)"
  using obj_diff_equal [OF assms]
  by (simp add: diff_def similarity_def obj_diff_same_def emit_value_diff_def)

theorem diff_identity_witness:
  "py_eq (List [IntV 1, Dict [(Str ''k'', SetV [IntV 2, IntV 3]), (Str ''m'', Null)], Tuple [Null, Str ''x'']])
         (List [IntV 1, Dict [(Str ''m'', Null), (Str ''k'', SetV [IntV 3, IntV 2])], Tuple [Null, Str ''x'']])
   \<and> plain_dicts (List [IntV 1, Dict [(Str ''k'', SetV [IntV 2, IntV 3]), (Str ''m'', Null)], Tuple [Null, Str ''x'']])
   \<and> plain_dicts (List [IntV 1, Dict [(Str ''m'', Null), (Str ''k'', SetV [IntV 3, IntV 2])], Tuple [Null, Str ''x'']])
   \<and> diff (List [IntV 1, Dict [(Str ''k'', SetV [IntV 2, IntV 3]), (Str ''m'', Null)], Tuple [Null, Str ''x'']])
          (List [IntV 1, Dict [(Str ''m'', Null), (Str ''k'', SetV [IntV 3, IntV 2])], Tuple [Null, Str ''x'']])
        = Dict []
   \<and> similarity (List [IntV 1, Dict [(Str ''k'', SetV [IntV 2, IntV 3]), (Str ''m'', Null)], Tuple [Null, Str ''x'']])
          (List [IntV 1, Dict [(Str ''m'', Null), (Str ''k'', SetV [IntV 3, IntV 2])], Tuple [Null, Str ''x'']])
        = 1
   \<and> obj_diff_same (List [IntV 1, Dict [(Str ''k'', SetV [IntV 2, IntV 3]), (Str ''m'', Null)], Tuple [Null, Str ''x'']])
        = (Dict [], 1)"
proof -
  let ?a = "List [IntV 1, Dict [(Str ''k'', SetV [IntV 2, IntV 3]), (Str ''m'', Null)], Tuple [Null, Str ''x'']]"
  let ?b = "List [IntV 1, Dict [(Str ''m'', Null), (Str ''k'', SetV [IntV 3, IntV 2])], Tuple [Null, Str ''x'']]"
  have e: "py_eq ?a ?b" by (simp add: py_eq_cases py_eq_other insert_commute)
  have p: "plain_dicts ?a" "plain_dicts ?b" by simp_all
  have s: "size ?a + size ?b \<le> 2 ^ 53" by simp
  from diff_identity [OF e p s] show ?thesis using e p by simp
qed

end
